theory Spec2Isabelle
  imports Main "HOL-Library.Word" "HOL-Library.Sublist" "HOL-Library.Multiset"
begin

unbundle bit_operations_syntax

section \<open>Restore map phase of worker/restore\_map.go\<close>

text \<open>
  A shallow embedding of \<^verbatim>\<open>src/worker/restore_map.go\<close>: the framing of map entries, the
  sort and the partition keys of a map file, the per-record policy of \<^verbatim>\<open>processKV\<close>, the
  construction of the backup reader and the manifest walk of \<^verbatim>\<open>RunMapper\<close>.
  Byte slices are lists of 8-bit words; \<^verbatim>\<open>uint16\<close>, \<^verbatim>\<open>uint32\<close> and \<^verbatim>\<open>uint64\<close> are words of
  that width, so a conversion such as \<^verbatim>\<open>uint16(len(key))\<close> wraps as it does in Go.
\<close>

subsection \<open>Bytes and fixed-width encodings\<close>

type_synonym byte = "8 word"
type_synonym bytes = "byte list"
type_synonym u16 = "16 word"
type_synonym u32 = "32 word"
type_synonym u64 = "64 word"

text \<open>\<^verbatim>\<open>binary.BigEndian.PutUint16\<close> and \<^verbatim>\<open>binary.BigEndian.Uint16\<close> of the Go library.\<close>

definition PutUint16 :: "u16 \<Rightarrow> bytes" where
  "PutUint16 v = [ucast (drop_bit 8 v), ucast v]"

definition Uint16 :: "bytes \<Rightarrow> u16" where
  "Uint16 b = push_bit 8 (ucast (b ! 0)) OR ucast (b ! 1)"

text \<open>\<^verbatim>\<open>binary.BigEndian.PutUint64\<close> and \<^verbatim>\<open>binary.BigEndian.Uint64\<close>.\<close>

definition PutUint64 :: "u64 \<Rightarrow> bytes" where
  "PutUint64 v = [ucast (drop_bit 56 v), ucast (drop_bit 48 v), ucast (drop_bit 40 v),
     ucast (drop_bit 32 v), ucast (drop_bit 24 v), ucast (drop_bit 16 v),
     ucast (drop_bit 8 v), ucast v]"

definition Uint64 :: "bytes \<Rightarrow> u64" where
  "Uint64 b = push_bit 56 (ucast (b ! 0)) OR push_bit 48 (ucast (b ! 1)) OR
     push_bit 40 (ucast (b ! 2)) OR push_bit 32 (ucast (b ! 3)) OR
     push_bit 24 (ucast (b ! 4)) OR push_bit 16 (ucast (b ! 5)) OR
     push_bit 8 (ucast (b ! 6)) OR ucast (b ! 7)"

subsection \<open>Errors and key-value records\<close>

text \<open>
  Go errors as values. \<open>Wrapped\<close> is \<^verbatim>\<open>errors.Wrap\<close>/\<^verbatim>\<open>errors.Wrapf\<close>; \<open>External\<close> is an
  error handed back by a collaborator (protobuf decoding, the posting package, the URI
  handler, the store).
\<close>

datatype error =
    External string
  | Wrapped string error
  | UnexpectedMeta bytes
  | UnknownCompression string
  | InvalidRestoreTs

text \<open>The fields of badger's \<^verbatim>\<open>pb.KV\<close>.\<close>

record KV =
  Key :: bytes
  Value :: bytes
  UserMeta :: bytes
  Version :: u64
  ExpiresAt :: u64
  Meta :: bytes
  StreamId :: u32
  StreamDone :: bool

subsection \<open>Map entries\<close>

text \<open>
  \<^verbatim>\<open>type mapEntry []byte\<close>: two bytes holding the length of the key, the key, the
  marshalled KV. Go panics on a slice shorter than its bounds; \<open>take\<close> and \<open>drop\<close>
  agree with Go whenever the bounds are in range, which \<open>toBuffer_in_range\<close> shows for
  every entry that \<open>toBuffer\<close> writes.
\<close>

type_synonym mapEntry = bytes

definition mapEntry_Key :: "mapEntry \<Rightarrow> bytes" where
  "mapEntry_Key me = (let sz = unat (Uint16 (take 2 me)) in take sz (drop 2 me))"


text \<open>
  Modelled from the spec: \<^verbatim>\<open>y.KeyWithTs\<close> belongs to the badger library and is not under
  \<^verbatim>\<open>src/\<close>. The spec (section 3, Map Entry): the key bytes are "the transformed key
  followed by the original record's version encoded as a big-endian 64-bit unsigned".
\<close>

definition KeyWithTs :: "bytes \<Rightarrow> u64 \<Rightarrow> bytes" where
  "KeyWithTs key ts = key @ PutUint64 ts"

text \<open>
  The closure \<^verbatim>\<open>toBuffer\<close> of \<^verbatim>\<open>processKV\<close>. Its first argument stands for
  \<^verbatim>\<open>kv.Size\<close> and \<^verbatim>\<open>kv.MarshalToSizedBuffer\<close> (generated protobuf code): the marshalled
  bytes of the KV, or the error of the marshaller. The result is the slice allocated in
  the output buffer.
\<close>

definition toBuffer :: "(KV \<Rightarrow> error + bytes) \<Rightarrow> KV \<Rightarrow> u64 \<Rightarrow> error + mapEntry" where
  "toBuffer marshal kv version =
     (let key = KeyWithTs (Key kv) version in
      case marshal kv of
        Inl err \<Rightarrow> Inl err
      | Inr data \<Rightarrow> Inr (PutUint16 (of_nat (length key)) @ key @ data))"

subsection \<open>Key comparison and sorting\<close>

text \<open>\<^verbatim>\<open>bytes.Compare\<close> of the Go library: lexicographic on unsigned bytes.\<close>

fun bytes_Compare :: "bytes \<Rightarrow> bytes \<Rightarrow> int" where
  "bytes_Compare [] [] = 0"
| "bytes_Compare [] (y # ys) = -1"
| "bytes_Compare (x # xs) [] = 1"
| "bytes_Compare (x # xs) (y # ys) =
     (if x < y then -1 else if y < x then 1 else bytes_Compare xs ys)"

text \<open>
  Modelled from the spec: \<^verbatim>\<open>y.CompareKeys\<close> belongs to the badger library and is not
  under \<^verbatim>\<open>src/\<close>. The spec calls it the native key comparison, with the "tie-break on the
  appended timestamp suffix": the keys without their last 8 bytes are compared bytewise,
  and only when these are equal the 8-byte suffixes are. (On a key shorter than 8 bytes
  the natural-number subtraction leaves an empty prefix; \<open>KeyWithTs\<close> never makes one.)
\<close>

definition CompareKeys :: "bytes \<Rightarrow> bytes \<Rightarrow> int" where
  "CompareKeys key1 key2 =
     (let cmp = bytes_Compare (take (length key1 - 8) key1) (take (length key2 - 8) key2) in
      if cmp \<noteq> 0 then cmp
      else bytes_Compare (drop (length key1 - 8) key1) (drop (length key2 - 8) key2))"

text \<open>
  Modelled from the spec: \<^verbatim>\<open>z.Buffer.SortSlice\<close> belongs to the ristretto library and is
  not under \<^verbatim>\<open>src/\<close>. The spec (section 4.4): "Sort the merge buffer's entries by native
  key comparison". A buffer is the list of its slices; the sort is an insertion sort
  driven by the \<^verbatim>\<open>less\<close> closure alone.
\<close>

fun insertSlice :: "('a \<Rightarrow> 'a \<Rightarrow> bool) \<Rightarrow> 'a \<Rightarrow> 'a list \<Rightarrow> 'a list" where
  "insertSlice lessf x [] = [x]"
| "insertSlice lessf x (y # ys) =
     (if lessf y x then y # insertSlice lessf x ys else x # y # ys)"

text \<open>
  Modelled from the spec: \<^verbatim>\<open>z.Buffer.SortSlice\<close>, as above: the slices are inserted one
  after the other into the sorted list of those after them.
\<close>

definition SortSlice :: "('a \<Rightarrow> 'a \<Rightarrow> bool) \<Rightarrow> 'a list \<Rightarrow> 'a list" where
  "SortSlice lessf buf = foldr (insertSlice lessf) buf []"

subsection \<open>Writing a map file\<close>

text \<open>
  \<^verbatim>\<open>pb.MapHeader\<close> and the finished file: the header and the entries in the order of
  the second \<^verbatim>\<open>SliceIterate\<close> of \<^verbatim>\<open>writeToDisk\<close>, each written after the uvarint of its
  length. The file system and the snappy writer are collaborators: when one of them
  fails, \<^verbatim>\<open>writeToDisk\<close> returns the error and no finished file exists, so the model
  describes the files that are written.
\<close>

record MapHeader =
  PartitionKeys :: "bytes list"

record mapFile =
  header :: MapHeader
  entries :: "mapEntry list"

text \<open>
  The closure of the first \<^verbatim>\<open>SliceIterate\<close> of \<^verbatim>\<open>writeToDisk\<close>; the state is the pair of
  \<^verbatim>\<open>bufSize\<close> and \<^verbatim>\<open>header.PartitionKeys\<close>. The constant \<^verbatim>\<open>partitionBufSz\<close> is declared
  outside \<^verbatim>\<open>src/\<close> and is a parameter.
\<close>

definition partition_step :: "nat \<Rightarrow> nat \<times> bytes list \<Rightarrow> mapEntry \<Rightarrow> nat \<times> bytes list" where
  "partition_step partitionBufSz st slc =
     (let bufSize = fst st + (4 + length slc); keys = snd st in
      if bufSize < partitionBufSz then (bufSize, keys)
      else if length keys > 0 \<and> mapEntry_Key slc = keys ! (length keys - 1)
        then (bufSize, keys)
      else (0, keys @ [mapEntry_Key slc]))"

definition partition_walk :: "nat \<Rightarrow> mapEntry list \<Rightarrow> nat \<times> bytes list" where
  "partition_walk partitionBufSz buf = foldl (partition_step partitionBufSz) (0, []) buf"

definition writeToDisk :: "nat \<Rightarrow> mapEntry list \<Rightarrow> mapFile option" where
  "writeToDisk partitionBufSz buf =
     (if buf = [] then None
      else Some \<lparr>header = \<lparr>PartitionKeys = snd (partition_walk partitionBufSz buf)\<rparr>,
                 entries = buf\<rparr>)"

definition entry_less :: "mapEntry \<Rightarrow> mapEntry \<Rightarrow> bool" where
  "entry_less ls rs \<longleftrightarrow> CompareKeys (mapEntry_Key ls) (mapEntry_Key rs) < 0"

definition writeNow :: "nat \<Rightarrow> mapEntry list \<Rightarrow> mapFile option" where
  "writeNow partitionBufSz mbuf =
     (if mbuf = [] then None
      else writeToDisk partitionBufSz (SortSlice entry_less mbuf))"

subsection \<open>Order of the entries of a file\<close>

text \<open>
  Ascending and strictly ascending order under the native key comparison of the keys
  that \<open>mapEntry_Key\<close> decodes from the entries.
\<close>

definition ascending :: "mapEntry list \<Rightarrow> bool" where
  "ascending es \<longleftrightarrow> sorted_wrt (\<lambda>l r. CompareKeys (mapEntry_Key l) (mapEntry_Key r) \<le> 0) es"

definition strictly_ascending :: "mapEntry list \<Rightarrow> bool" where
  "strictly_ascending es \<longleftrightarrow>
     sorted_wrt (\<lambda>l r. CompareKeys (mapEntry_Key l) (mapEntry_Key r) < 0) es"

text \<open>Three entries as \<open>toBuffer\<close> frames them: a 9-byte key and one byte of data.\<close>

definition e1 :: mapEntry where "e1 = [0, 9, 7, 0, 0, 0, 0, 0, 0, 0, 5, 42]"
definition e2 :: mapEntry where "e2 = [0, 9, 3, 0, 0, 0, 0, 0, 0, 0, 6, 43]"
definition e3 :: mapEntry where "e3 = [0, 9, 7, 0, 0, 0, 0, 0, 0, 0, 4, 44]"

subsection \<open>Collaborators of the record processor\<close>

text \<open>
  \<^verbatim>\<open>x.ParsedKey\<close>, as far as \<^verbatim>\<open>processKV\<close> reads it: the fields \<^verbatim>\<open>Attr\<close>, \<^verbatim>\<open>Uid\<close> and
  \<^verbatim>\<open>HasStartUid\<close> and the results of the methods \<^verbatim>\<open>IsSchema()\<close> and \<^verbatim>\<open>IsType()\<close>.
\<close>

record ParsedKey =
  Attr :: string
  Uid :: u64
  HasStartUid :: bool
  IsSchema :: bool
  IsType :: bool

text \<open>
  \<^verbatim>\<open>pb.SchemaUpdate\<close> and \<^verbatim>\<open>pb.TypeUpdate\<close>, as far as the migrations touch them: the
  predicate of a schema update, the name and the fields of a type update. The other
  protobuf fields are neither read nor written in this file.
\<close>

record SchemaUpdate =
  Predicate :: string

record TypeUpdate =
  TypeName :: string
  Fields :: "SchemaUpdate list"

text \<open>
  The functions and constants that \<^verbatim>\<open>processKV\<close> takes from other packages, none of
  them under \<^verbatim>\<open>src/\<close>; they are parameters of the model. \<open>'bk\<close> is \<^verbatim>\<open>pb.BackupKey\<close>,
  \<open>'bpl\<close> is \<^verbatim>\<open>pb.BackupPostingList\<close>, \<open>'pl\<close> is \<^verbatim>\<open>pb.PostingList\<close>.
  \<open>Rollup key pl minTs\<close> stands for \<^verbatim>\<open>posting.NewList(key, pl, minTs).Rollup(nil)\<close>,
  \<open>BackupKey_Namespace\<close> for the field \<^verbatim>\<open>backupKey.Namespace\<close>, \<open>KV_Marshal\<close> for
  \<^verbatim>\<open>kv.Size\<close> with \<^verbatim>\<open>kv.MarshalToSizedBuffer\<close>.
\<close>

record ('bk, 'bpl, 'pl) externals =
  BackupKey_Unmarshal :: "bytes \<Rightarrow> error + 'bk"
  BackupKey_Namespace :: "'bk \<Rightarrow> u64"
  x_FromBackupKey :: "'bk \<Rightarrow> bytes"
  x_Parse :: "bytes \<Rightarrow> error + ParsedKey"
  BitEmptyPosting :: byte
  BitCompletePosting :: byte
  BitDeltaPosting :: byte
  BitSchemaPosting :: byte
  BackupPostingList_Unmarshal :: "bytes \<Rightarrow> error + 'bpl"
  FromBackupPostingList :: "'bpl \<Rightarrow> 'pl"
  ShouldSplit :: "'pl \<Rightarrow> bool"
  GetSplits :: "'pl \<Rightarrow> u64 list"
  MarshalPostingList :: "'pl \<Rightarrow> KV"
  Rollup :: "bytes \<Rightarrow> 'pl \<Rightarrow> u64 \<Rightarrow> error + KV list"
  TypeUpdate_Unmarshal :: "bytes \<Rightarrow> error + TypeUpdate"
  TypeUpdate_Marshal :: "TypeUpdate \<Rightarrow> error + bytes"
  SchemaUpdate_Unmarshal :: "bytes \<Rightarrow> error + SchemaUpdate"
  SchemaUpdate_Marshal :: "SchemaUpdate \<Rightarrow> error + bytes"
  GalaxyAttr :: "string \<Rightarrow> string"
  AttrFrom2103 :: "string \<Rightarrow> error + string"
  KV_Marshal :: "KV \<Rightarrow> error + bytes"

subsection \<open>The record processor\<close>

record loadBackupInput =
  preds :: "string set"
  dropNs :: "u64 set"
  version :: int
  keepSchema :: bool

text \<open>
  \<^verbatim>\<open>type processor\<close>: the local maxima, and \<^verbatim>\<open>restoreTs\<close> of the embedded mapper.
\<close>

record processor =
  restoreTs :: u64
  maxUid :: u64
  maxNs :: u64

definition fromBackupKey ::
  "('bk, 'bpl, 'pl) externals \<Rightarrow> bytes \<Rightarrow> error + (bytes \<times> u64)" where
  "fromBackupKey ext key =
     (case BackupKey_Unmarshal ext key of
        Inl err \<Rightarrow> Inl (Wrapped ''while reading backup key'' err)
      | Inr backupKey \<Rightarrow> Inr (x_FromBackupKey ext backupKey, BackupKey_Namespace ext backupKey))"

text \<open>
  The loop over the records of a rollup: each is written under the version it came
  with, after its \<^verbatim>\<open>Version\<close> is set to \<^verbatim>\<open>restoreTs\<close>; the first error ends the loop.
\<close>

fun rollup_loop ::
  "('bk, 'bpl, 'pl) externals \<Rightarrow> u64 \<Rightarrow> KV list \<Rightarrow> error + mapEntry list" where
  "rollup_loop ext ts [] = Inr []"
| "rollup_loop ext ts (kv # kvs) =
     (let version = Version kv;
          kv = kv\<lparr>Version := ts\<rparr> in
      case toBuffer (KV_Marshal ext) kv version of
        Inl err \<Rightarrow> Inl err
      | Inr e \<Rightarrow>
          (case rollup_loop ext ts kvs of
             Inl err \<Rightarrow> Inl err
           | Inr es \<Rightarrow> Inr (e # es)))"

text \<open>
  The posting case of the switch on the meta byte. The result is the error returned,
  or the entries appended to the buffer.
\<close>

definition posting_case ::
  "('bk, 'bpl, 'pl) externals \<Rightarrow> processor \<Rightarrow> loadBackupInput \<Rightarrow> KV \<Rightarrow> bytes \<Rightarrow> u64
     \<Rightarrow> ParsedKey \<Rightarrow> error + mapEntry list" where
  "posting_case ext p inp kv restoreKey ns parsedKey =
     (if ns \<in> dropNs inp then Inr []
      else case BackupPostingList_Unmarshal ext (Value kv) of
        Inl err \<Rightarrow> Inl (Wrapped ''while reading backup posting list'' err)
      | Inr backupPl \<Rightarrow>
          (let pl = FromBackupPostingList ext backupPl in
           if \<not> ShouldSplit ext pl \<or> HasStartUid parsedKey \<or> length (GetSplits ext pl) > 0
           then
             (let newKv = MarshalPostingList ext pl;
                  newKv = newKv\<lparr>Key := restoreKey\<rparr>;
                  newKv = newKv\<lparr>Version := restoreTs p\<rparr> in
              case toBuffer (KV_Marshal ext) newKv (Version kv) of
                Inl err \<Rightarrow> Inl err
              | Inr e \<Rightarrow> Inr [e])
           else
             (case Rollup ext restoreKey pl (Version kv) of
                Inl err \<Rightarrow> Inl err
              | Inr kvs \<Rightarrow> rollup_loop ext (restoreTs p) kvs)))"

text \<open>
  The closure \<^verbatim>\<open>appendNamespace\<close>: the error, or the new \<^verbatim>\<open>kv.Value\<close>.
\<close>

definition appendNamespace :: "('bk, 'bpl, 'pl) externals \<Rightarrow> KV \<Rightarrow> error + bytes" where
  "appendNamespace ext kv =
     (case TypeUpdate_Unmarshal ext (Value kv) of
        Inl err \<Rightarrow> Inl err
      | Inr update \<Rightarrow>
          (let update = update\<lparr>TypeName := GalaxyAttr ext (TypeName update)\<rparr>;
               update = update\<lparr>Fields :=
                 map (\<lambda>sch. sch\<lparr>Predicate := GalaxyAttr ext (Predicate sch)\<rparr>) (Fields update)\<rparr>
           in TypeUpdate_Marshal ext update))"

text \<open>The loop of \<^verbatim>\<open>changeFormat\<close> over the fields of a type; the first error ends it.\<close>

fun fields_from2103 ::
  "('bk, 'bpl, 'pl) externals \<Rightarrow> SchemaUpdate list \<Rightarrow> error + SchemaUpdate list" where
  "fields_from2103 ext [] = Inr []"
| "fields_from2103 ext (sch # schs) =
     (case AttrFrom2103 ext (Predicate sch) of
        Inl err \<Rightarrow> Inl err
      | Inr a \<Rightarrow>
          (case fields_from2103 ext schs of
             Inl err \<Rightarrow> Inl err
           | Inr schs' \<Rightarrow> Inr (sch\<lparr>Predicate := a\<rparr> # schs')))"

text \<open>The closure \<^verbatim>\<open>changeFormat\<close>: the error, or the new \<^verbatim>\<open>kv.Value\<close>.\<close>

definition changeFormat ::
  "('bk, 'bpl, 'pl) externals \<Rightarrow> ParsedKey \<Rightarrow> KV \<Rightarrow> error + bytes" where
  "changeFormat ext parsedKey kv =
     (if IsSchema parsedKey then
        (case SchemaUpdate_Unmarshal ext (Value kv) of
           Inl err \<Rightarrow> Inl err
         | Inr update \<Rightarrow>
             (case AttrFrom2103 ext (Predicate update) of
                Inl err \<Rightarrow> Inl err
              | Inr a \<Rightarrow> SchemaUpdate_Marshal ext (update\<lparr>Predicate := a\<rparr>)))
      else if IsType parsedKey then
        (case TypeUpdate_Unmarshal ext (Value kv) of
           Inl err \<Rightarrow> Inl err
         | Inr update \<Rightarrow>
             (case AttrFrom2103 ext (TypeName update) of
                Inl err \<Rightarrow> Inl err
              | Inr tn \<Rightarrow>
                  (case fields_from2103 ext (Fields update) of
                     Inl err \<Rightarrow> Inl err
                   | Inr schs \<Rightarrow>
                       TypeUpdate_Marshal ext (update\<lparr>TypeName := tn, Fields := schs\<rparr>))))
      else Inr (Value kv))"

text \<open>
  The switch on \<^verbatim>\<open>in.version\<close> of the schema case: the error of the migration, or the
  value of the record after it.
\<close>

definition migrate ::
  "('bk, 'bpl, 'pl) externals \<Rightarrow> loadBackupInput \<Rightarrow> ParsedKey \<Rightarrow> KV \<Rightarrow> error + bytes" where
  "migrate ext inp parsedKey kv =
     (if version inp = 0 then
        (if IsType parsedKey then appendNamespace ext kv else Inr (Value kv))
      else if version inp = 2103 then changeFormat ext parsedKey kv
      else Inr (Value kv))"

text \<open>
  The schema case of the switch on the meta byte: a failed migration is logged and the
  function returns \<^verbatim>\<open>nil\<close> with nothing written.
\<close>

definition schema_case ::
  "('bk, 'bpl, 'pl) externals \<Rightarrow> processor \<Rightarrow> loadBackupInput \<Rightarrow> KV \<Rightarrow> bytes
     \<Rightarrow> ParsedKey \<Rightarrow> error + mapEntry list" where
  "schema_case ext p inp kv restoreKey parsedKey =
     (case migrate ext inp parsedKey kv of
        Inl err \<Rightarrow> Inr []
      | Inr val \<Rightarrow>
          (let kv = kv\<lparr>Value := val\<rparr>;
               kv = kv\<lparr>StreamId := 0\<rparr>;
               version = Version kv;
               kv = kv\<lparr>Version := restoreTs p\<rparr>;
               kv = kv\<lparr>Key := restoreKey\<rparr> in
           case toBuffer (KV_Marshal ext) kv version of
             Inl err \<Rightarrow> Inl err
           | Inr e \<Rightarrow> Inr [e]))"

text \<open>
  \<^verbatim>\<open>processKV\<close>: the error returned, or the processor with its maxima updated and the
  entries appended to the buffer. (When an error is returned the phase is aborted, and
  what the buffer and the maxima hold is of no consequence.)
\<close>

definition processKV ::
  "('bk, 'bpl, 'pl) externals \<Rightarrow> processor \<Rightarrow> loadBackupInput \<Rightarrow> KV
     \<Rightarrow> error + (processor \<times> mapEntry list)" where
  "processKV ext p inp kv =
     (if length (UserMeta kv) \<noteq> 1 then Inl (UnexpectedMeta (UserMeta kv))
      else case fromBackupKey ext (Key kv) of
        Inl err \<Rightarrow> Inl (Wrapped ''fromBackupKey'' err)
      | Inr (restoreKey, ns) \<Rightarrow>
          (case x_Parse ext restoreKey of
             Inl err \<Rightarrow> Inl (Wrapped ''could not parse key'' err)
           | Inr parsedKey \<Rightarrow>
               (let p = p\<lparr>maxUid := max (maxUid p) (Uid parsedKey)\<rparr>;
                    p = p\<lparr>maxNs := max (maxNs p) ns\<rparr> in
                if \<not> keepSchema inp \<and> (IsSchema parsedKey \<or> IsType parsedKey) then Inr (p, [])
                else if \<not> IsType parsedKey \<and> Attr parsedKey \<notin> preds inp then Inr (p, [])
                else if UserMeta kv ! 0 = BitEmptyPosting ext
                    \<or> UserMeta kv ! 0 = BitCompletePosting ext
                    \<or> UserMeta kv ! 0 = BitDeltaPosting ext then
                  (case posting_case ext p inp kv restoreKey ns parsedKey of
                     Inl err \<Rightarrow> Inl err
                   | Inr es \<Rightarrow> Inr (p, es))
                else if UserMeta kv ! 0 = BitSchemaPosting ext then
                  (case schema_case ext p inp kv restoreKey parsedKey of
                     Inl err \<Rightarrow> Inl err
                   | Inr es \<Rightarrow> Inr (p, es))
                else Inl (UnexpectedMeta (UserMeta kv)))))"

subsection \<open>The skip cases and the assumptions on the rollup\<close>

text \<open>
  The filter cases as the spec names them (section 4.3): the schema filter, the
  predicate filter, and the meta bytes of a posting record.
\<close>

definition schema_filter :: "loadBackupInput \<Rightarrow> ParsedKey \<Rightarrow> bool" where
  "schema_filter inp parsedKey \<longleftrightarrow>
     \<not> keepSchema inp \<and> (IsSchema parsedKey \<or> IsType parsedKey)"

definition predicate_filter :: "loadBackupInput \<Rightarrow> ParsedKey \<Rightarrow> bool" where
  "predicate_filter inp parsedKey \<longleftrightarrow>
     \<not> IsType parsedKey \<and> Attr parsedKey \<notin> preds inp"

definition is_posting :: "('bk, 'bpl, 'pl) externals \<Rightarrow> KV \<Rightarrow> bool" where
  "is_posting ext kv \<longleftrightarrow>
     UserMeta kv ! 0 = BitEmptyPosting ext \<or> UserMeta kv ! 0 = BitCompletePosting ext
       \<or> UserMeta kv ! 0 = BitDeltaPosting ext"

definition is_schema :: "('bk, 'bpl, 'pl) externals \<Rightarrow> KV \<Rightarrow> bool" where
  "is_schema ext kv \<longleftrightarrow> \<not> is_posting ext kv \<and> UserMeta kv ! 0 = BitSchemaPosting ext"

text \<open>The processor after the update of its local maxima.\<close>

definition seen :: "processor \<Rightarrow> ParsedKey \<Rightarrow> u64 \<Rightarrow> processor" where
  "seen p parsedKey ns =
     p\<lparr>maxUid := max (maxUid p) (Uid parsedKey), maxNs := max (maxNs p) ns\<rparr>"

text \<open>
  Modelled from the spec: \<^verbatim>\<open>posting.List.Rollup\<close> is code of the repository that is not
  under \<^verbatim>\<open>src/\<close>. The spec (section 4.3): rollup "produces one primary record and zero or
  more split records"; (section 8): the entries of a rollup carry "the same source
  version in [their] key suffix". As \<^verbatim>\<open>processKV\<close> takes the suffix from the version of
  each record of the rollup, the second says that the rollup stamps its records with the
  \<^verbatim>\<open>minTs\<close> the list was made with.
\<close>

definition rollup_nonempty :: "('bk, 'bpl, 'pl) externals \<Rightarrow> bool" where
  "rollup_nonempty ext \<longleftrightarrow> (\<forall>key pl ts. Rollup ext key pl ts \<noteq> Inr [])"

text \<open>
  Modelled from the spec: \<^verbatim>\<open>posting.List.Rollup\<close>, as above (section 8): every record of
  a rollup has the version the list was made with.
\<close>

definition rollup_keeps_version :: "('bk, 'bpl, 'pl) externals \<Rightarrow> bool" where
  "rollup_keeps_version ext \<longleftrightarrow>
     (\<forall>key pl ts kvs. Rollup ext key pl ts = Inr kvs \<longrightarrow> (\<forall>k \<in> set kvs. Version k = ts))"

subsection \<open>A concrete instance of the collaborators\<close>

text \<open>
  Small stand-ins for the collaborators, on which the theorems are instantiated. A
  backup key is three bytes: the namespace, the kind of key (1 a schema key, 2 a type
  key, anything else a data key) and the uid. A posting list is its bytes, split when
  longer than three. A type update is decoded from one byte per name and encoded as its
  names, each closed by a zero byte. The meta bits are those of the posting package.
\<close>

definition name_of :: "byte \<Rightarrow> string" where
  "name_of b = (if b = 1 then ''1|Person'' else if b = 2 then ''1|name''
     else if b = 3 then ''Person'' else if b = 4 then ''name'' else ''x'')"

definition kv_of :: "bytes \<Rightarrow> bytes \<Rightarrow> u64 \<Rightarrow> KV" where
  "kv_of key val ts = \<lparr>Key = key, Value = val, UserMeta = [8], Version = ts, ExpiresAt = 0,
     Meta = [], StreamId = 0, StreamDone = False\<rparr>"

definition ext0 :: "(bytes, bytes, bytes) externals" where
  "ext0 = \<lparr>
     BackupKey_Unmarshal =
       (\<lambda>key. if length key = 3 then Inr key else Inl (External ''bad backup key'')),
     BackupKey_Namespace = (\<lambda>bk. ucast (bk ! 0)),
     x_FromBackupKey = (\<lambda>bk. tl bk),
     x_Parse = (\<lambda>k. if length k = 2
        then Inr \<lparr>Attr = (if k ! 0 = 2 then ''Person'' else ''name''), Uid = ucast (k ! 1),
                  HasStartUid = False, IsSchema = (k ! 0 = 1), IsType = (k ! 0 = 2)\<rparr>
        else Inl (External ''bad key'')),
     BitEmptyPosting = 16,
     BitCompletePosting = 8,
     BitDeltaPosting = 4,
     BitSchemaPosting = 1,
     BackupPostingList_Unmarshal =
       (\<lambda>v. if v = [] then Inl (External ''bad posting list'') else Inr v),
     FromBackupPostingList = (\<lambda>bpl. bpl),
     ShouldSplit = (\<lambda>pl. 3 < length pl),
     GetSplits = (\<lambda>pl. []),
     MarshalPostingList = (\<lambda>pl. kv_of [] pl 0),
     Rollup = (\<lambda>key pl ts. Inr [kv_of key (take 2 pl) ts, kv_of (key @ [1]) (drop 2 pl) ts]),
     TypeUpdate_Unmarshal =
       (\<lambda>v. if v = [] then Inl (External ''bad type'')
            else Inr \<lparr>TypeName = name_of (hd v),
                      Fields = map (\<lambda>b. \<lparr>Predicate = name_of b\<rparr>) (tl v)\<rparr>),
     TypeUpdate_Marshal =
       (\<lambda>u. Inr (concat (map (\<lambda>s. map of_char s @ [0])
                          (TypeName u # map Predicate (Fields u))))),
     SchemaUpdate_Unmarshal =
       (\<lambda>v. if v = [] then Inl (External ''bad schema'')
            else Inr \<lparr>Predicate = name_of (hd v)\<rparr>),
     SchemaUpdate_Marshal = (\<lambda>u. Inr (map of_char (Predicate u))),
     GalaxyAttr = (\<lambda>attr. ''0-'' @ attr),
     AttrFrom2103 =
       (\<lambda>attr. if 2 \<le> length attr \<and> attr ! 1 = CHR ''|'' then Inr (attr[1 := CHR ''-''])
               else Inl (External ''bad attr'')),
     KV_Marshal = (\<lambda>kv. Inr (ucast (Version kv) # ucast (StreamId kv) # Value kv))\<rparr>"

definition p0 :: processor where
  "p0 = \<lparr>restoreTs = 100, maxUid = 0, maxNs = 0\<rparr>"

definition inp0 :: "int \<Rightarrow> loadBackupInput" where
  "inp0 v = \<lparr>preds = {''name''}, dropNs = {}, version = v, keepSchema = True\<rparr>"

text \<open>
  A type record and a schema record of namespace 1 with a given value, and the parsed
  keys of the two.
\<close>

definition kv_type :: "bytes \<Rightarrow> KV" where
  "kv_type val = (kv_of [1, 2, 0] val 50)\<lparr>UserMeta := [1], StreamId := 9\<rparr>"

definition kv_schema :: "bytes \<Rightarrow> KV" where
  "kv_schema val = (kv_of [1, 1, 0] val 50)\<lparr>UserMeta := [1], StreamId := 9\<rparr>"

definition pk_type :: ParsedKey where
  "pk_type = \<lparr>Attr = ''Person'', Uid = 0, HasStartUid = False, IsSchema = False, IsType = True\<rparr>"

definition pk_schema :: ParsedKey where
  "pk_schema = \<lparr>Attr = ''name'', Uid = 0, HasStartUid = False, IsSchema = True, IsType = False\<rparr>"

definition pk_data :: ParsedKey where
  "pk_data = \<lparr>Attr = ''name'', Uid = 7, HasStartUid = False, IsSchema = False, IsType = False\<rparr>"

subsection \<open>The backup reader\<close>

text \<open>
  \<^verbatim>\<open>type backupReader\<close>: the closers, the reader and the first error (fields \<^verbatim>\<open>toClose\<close>,
  \<^verbatim>\<open>r\<close> and \<^verbatim>\<open>err\<close>). \<open>'rd\<close> is the type of the streams (\<^verbatim>\<open>io.Reader\<close>).
\<close>

record 'rd backupReader =
  toClose :: "'rd list"
  br_r :: 'rd
  br_err :: "error option"

datatype DropOperation_DropOp =
  DropOperation_ALL | DropOperation_DATA | DropOperation_ATTR | DropOperation_NS

record DropOperation =
  DropOp :: DropOperation_DropOp
  DropValue :: string

text \<open>
  \<^verbatim>\<open>type Manifest\<close>, as far as \<^verbatim>\<open>RunMapper\<close> reads it. \<open>ValidReadTs\<close> is the result of the
  method \<^verbatim>\<open>ValidReadTs()\<close>; \<open>Groups\<close> is the Go map from group ids to predicates, as an
  association list read with \<open>map_of\<close>; \<open>ManifestVersion\<close> is the field \<^verbatim>\<open>Version\<close>.
\<close>

record Manifest =
  BackupNum :: u64
  ValidReadTs :: u64
  Groups :: "(u32 \<times> string list) list"
  Path :: string
  Compression :: string
  ManifestVersion :: int
  DropOperations :: "DropOperation list"

text \<open>\<^verbatim>\<open>pb.RestoreRequest\<close>, as far as \<^verbatim>\<open>RunMapper\<close> reads it.\<close>

record RestoreRequest =
  Location :: string
  RestoreTs :: u64
  GroupId :: u32
  IncrementalFrom :: u64

text \<open>
  The collaborators of \<^verbatim>\<open>RunMapper\<close>, \<^verbatim>\<open>mapper.Map\<close> and \<^verbatim>\<open>processReqCh\<close>, none of them
  under \<^verbatim>\<open>src/\<close>; they are parameters of the model. \<open>GetKeys\<close> stands for the
  \<^verbatim>\<open>EncKey\<close> of \<^verbatim>\<open>ee.GetKeys\<close>; \<open>backupFile path ts gid\<close> for
  \<^verbatim>\<open>filepath.Join(path, backupName(ts, gid))\<close>; \<open>read_batches rd\<close> for what \<^verbatim>\<open>mapper.Map\<close>
  reads from the stream: the buffers of record batches it sends into \<^verbatim>\<open>reqCh\<close>, and the
  error that ends the reading, if any.
\<close>

record 'rd env =
  url_Parse :: "string \<Rightarrow> error option"
  NewUriHandler :: "string \<Rightarrow> error option"
  getManifestsToRestore :: "RestoreRequest \<Rightarrow> error + Manifest list"
  getEncConfig :: "RestoreRequest \<Rightarrow> error option"
  GetKeys :: "RestoreRequest \<Rightarrow> error + bytes"
  NumCPU :: nat
  backupFile :: "string \<Rightarrow> u64 \<Rightarrow> u32 \<Rightarrow> string"
  Stream :: "string \<Rightarrow> 'rd \<times> error option"
  enc_GetReader :: "bytes \<Rightarrow> 'rd \<Rightarrow> 'rd \<times> error option"
  snappy_NewReader :: "'rd \<Rightarrow> 'rd"
  gzip_NewReader :: "'rd \<Rightarrow> 'rd \<times> error option"
  Close_rd :: "'rd \<Rightarrow> error option"
  getPredsInGroup :: "Manifest \<Rightarrow> u32 \<Rightarrow> string set"
  ParseUint :: "string \<Rightarrow> error + u64"
  BanNamespace :: "u64 \<Rightarrow> error option"
  read_batches :: "'rd \<Rightarrow> bytes list list \<times> error option"
  KVList_Unmarshal :: "bytes \<Rightarrow> error + KV list"

definition setErr :: "'rd backupReader \<Rightarrow> error option \<Rightarrow> 'rd backupReader" where
  "setErr br e = (if br_err br = None then br\<lparr>br_err := e\<rparr> else br)"

definition readerFrom :: "'rd env \<Rightarrow> string \<Rightarrow> 'rd backupReader" where
  "readerFrom env file =
     (let (reader, e) = Stream env file;
          br = setErr \<lparr>toClose = [], br_r = reader, br_err = None\<rparr> e;
          br = br\<lparr>toClose := toClose br @ [reader]\<rparr> in
      br\<lparr>br_r := reader\<rparr>)"

definition WithEncryption :: "'rd env \<Rightarrow> 'rd backupReader \<Rightarrow> bytes \<Rightarrow> 'rd backupReader" where
  "WithEncryption env br encKey =
     (if length encKey = 0 then br
      else let (rd, e) = enc_GetReader env encKey (br_r br);
               br = setErr br e in
           br\<lparr>br_r := rd\<rparr>)"

definition WithCompression :: "'rd env \<Rightarrow> 'rd backupReader \<Rightarrow> string \<Rightarrow> 'rd backupReader" where
  "WithCompression env br compression =
     (if compression = ''snappy'' then br\<lparr>br_r := snappy_NewReader env (br_r br)\<rparr>
      else if compression = ''gzip'' \<or> compression = '''' then
        (let (rd, e) = gzip_NewReader env (br_r br);
             br = setErr br e;
             br = br\<lparr>br_r := rd\<rparr> in
         br\<lparr>toClose := toClose br @ [rd]\<rparr>)
      else setErr br (Some (UnknownCompression compression)))"

text \<open>\<^verbatim>\<open>Close\<close>: the closers in reverse order; the error of the last one that fails.\<close>

definition Close :: "'rd env \<Rightarrow> 'rd backupReader \<Rightarrow> error option" where
  "Close env br =
     foldl (\<lambda>rerr c. case Close_rd env c of Some e \<Rightarrow> Some e | None \<Rightarrow> rerr) None
       (rev (toClose br))"

subsection \<open>The manifest walk\<close>

type_synonym listReq = "bytes list \<times> loadBackupInput"

text \<open>
  \<^verbatim>\<open>mapper.Map\<close>: the requests sent into \<^verbatim>\<open>reqCh\<close>, each with the load descriptor, and
  the error returned.
\<close>

definition Map :: "'rd env \<Rightarrow> 'rd backupReader \<Rightarrow> loadBackupInput \<Rightarrow> listReq list \<times> error option"
  where
  "Map env br inp =
     (let (lbufs, e) = read_batches env (br_r br) in (map (\<lambda>lbuf. (lbuf, inp)) lbufs, e))"

text \<open>
  The local variables of \<^verbatim>\<open>RunMapper\<close> that the loop over the manifests changes
  (\<open>dropNs_acc\<close> is \<^verbatim>\<open>dropNs\<close>), and what the loop does to the outside: \<open>mapped\<close> lists the
  calls of \<^verbatim>\<open>mapper.Map\<close> in order, each with the index of its manifest and its load
  descriptor; \<open>requests\<close> is what these calls sent into \<^verbatim>\<open>reqCh\<close>; \<open>banned\<close> lists the
  namespaces banned in the store.
\<close>

record planState =
  dropAll :: bool
  dropAttr :: "string set"
  dropNs_acc :: "u64 set"
  maxBannedNs :: u64
  mapped :: "(nat \<times> loadBackupInput) list"
  requests :: "listReq list"
  banned :: "u64 list"

definition init_planState :: planState where
  "init_planState = \<lparr>dropAll = False, dropAttr = {}, dropNs_acc = {}, maxBannedNs = 0,
     mapped = [], requests = [], banned = []\<rparr>"

text \<open>
  The body of the loop over \<^verbatim>\<open>manifest.Groups\<close> for the group of the request (the keys
  of a Go map are distinct, so it runs at most once for a manifest).
\<close>

definition map_group ::
  "'rd env \<Rightarrow> RestoreRequest \<Rightarrow> bytes \<Rightarrow> Manifest list \<Rightarrow> nat \<Rightarrow> Manifest \<Rightarrow> planState
     \<Rightarrow> planState \<times> error option" where
  "map_group env req encKey manifests i manifest st =
     (let gid = GroupId req;
          file = backupFile env (Path manifest) (ValidReadTs manifest) gid;
          br = WithCompression env (WithEncryption env (readerFrom env file) encKey)
                 (Compression manifest) in
      case br_err br of
        Some e \<Rightarrow> (st, Some (Wrapped ''newBackupReader'' e))
      | None \<Rightarrow>
          (let predSet = getPredsInGroup env (manifests ! 0) gid - dropAttr st;
               localDropNs = dropNs_acc st;
               inp = \<lparr>preds = predSet, dropNs = localDropNs,
                      version = ManifestVersion manifest, keepSchema = (i = 0)\<rparr>;
               (reqs, e) = Map env br inp;
               st = st\<lparr>mapped := mapped st @ [(i, inp)], requests := requests st @ reqs\<rparr> in
           case e of
             Some e \<Rightarrow> (st, Some (Wrapped ''mapper.Map'' e))
           | None \<Rightarrow>
               (case Close env br of
                  Some e \<Rightarrow> (st, Some (Wrapped ''br.Close'' e))
                | None \<Rightarrow> (st, None))))"

text \<open>The loop over \<^verbatim>\<open>manifest.DropOperations\<close>; an error ends \<^verbatim>\<open>RunMapper\<close>.\<close>

fun drop_ops :: "'rd env \<Rightarrow> DropOperation list \<Rightarrow> planState \<Rightarrow> planState \<times> error option" where
  "drop_ops env [] st = (st, None)"
| "drop_ops env (dop # ops) st =
     (case DropOp dop of
        DropOperation_ALL \<Rightarrow> drop_ops env ops (st\<lparr>dropAll := True\<rparr>)
      | DropOperation_DATA \<Rightarrow>
          (if DropValue dop = '''' then drop_ops env ops (st\<lparr>dropAll := True\<rparr>)
           else case ParseUint env (DropValue dop) of
             Inl e \<Rightarrow> (st, Some (Wrapped ''Map phase failed to parse namespace'' e))
           | Inr ns \<Rightarrow> drop_ops env ops (st\<lparr>dropNs_acc := insert ns (dropNs_acc st)\<rparr>))
      | DropOperation_ATTR \<Rightarrow> drop_ops env ops (st\<lparr>dropAttr := insert (DropValue dop) (dropAttr st)\<rparr>)
      | DropOperation_NS \<Rightarrow>
          (case ParseUint env (DropValue dop) of
             Inl e \<Rightarrow> (st, Some (Wrapped ''Map phase failed to parse namespace'' e))
           | Inr ns \<Rightarrow>
               (case BanNamespace env ns of
                  Some e \<Rightarrow> (st, Some (Wrapped ''Map phase failed to ban namespace'' e))
                | None \<Rightarrow>
                    drop_ops env ops
                      (st\<lparr>banned := banned st @ [ns],
                          maxBannedNs := max (maxBannedNs st) ns\<rparr>))))"

text \<open>
  The loop \<^verbatim>\<open>for i, manifest := range manifests\<close>: \<open>i\<close> is the index of the first of the
  manifests still to visit.
\<close>

fun plan_loop ::
  "'rd env \<Rightarrow> RestoreRequest \<Rightarrow> bytes \<Rightarrow> Manifest list \<Rightarrow> nat \<Rightarrow> Manifest list \<Rightarrow> planState
     \<Rightarrow> planState \<times> error option" where
  "plan_loop env req encKey manifests i [] st = (st, None)"
| "plan_loop env req encKey manifests i (manifest # rest) st =
     (if BackupNum manifest < IncrementalFrom req then (st, None)
      else if dropAll st then (st, None)
      else if ValidReadTs manifest = 0 \<or> length (Groups manifest) = 0
        then plan_loop env req encKey manifests (i + 1) rest st
      else
        (case (case map_of (Groups manifest) (GroupId req) of
                 None \<Rightarrow> (st, None)
               | Some ps \<Rightarrow> map_group env req encKey manifests i manifest st) of
           (st, Some e) \<Rightarrow> (st, Some e)
         | (st, None) \<Rightarrow>
             (case drop_ops env (DropOperations manifest) st of
                (st, Some e) \<Rightarrow> (st, Some e)
              | (st, None) \<Rightarrow> plan_loop env req encKey manifests (i + 1) rest st)))"

subsection \<open>The processor pool\<close>

text \<open>The loop over the records of one batch; the first error ends it.\<close>

fun process_kvs ::
  "('bk, 'bpl, 'pl) externals \<Rightarrow> processor \<Rightarrow> loadBackupInput \<Rightarrow> KV list
     \<Rightarrow> error + (processor \<times> mapEntry list)" where
  "process_kvs ext p inp [] = Inr (p, [])"
| "process_kvs ext p inp (kv # kvs) =
     (case processKV ext p inp kv of
        Inl e \<Rightarrow> Inl e
      | Inr (p, es) \<Rightarrow>
          (case process_kvs ext p inp kvs of
             Inl e \<Rightarrow> Inl e
           | Inr (p, es') \<Rightarrow> Inr (p, es @ es')))"

text \<open>The closure \<^verbatim>\<open>process\<close> of \<^verbatim>\<open>processReqCh\<close>: the loop over the batches of a request.\<close>

fun process ::
  "('bk, 'bpl, 'pl) externals \<Rightarrow> 'rd env \<Rightarrow> processor \<Rightarrow> loadBackupInput \<Rightarrow> bytes list
     \<Rightarrow> error + (processor \<times> mapEntry list)" where
  "process ext env p inp [] = Inr (p, [])"
| "process ext env p inp (s # ss) =
     (case KVList_Unmarshal env s of
        Inl e \<Rightarrow> Inl e
      | Inr kvs \<Rightarrow>
          (case process_kvs ext p inp kvs of
             Inl e \<Rightarrow> Inl e
           | Inr (p, es) \<Rightarrow>
               (case process ext env p inp ss of
                  Inl e \<Rightarrow> Inl e
                | Inr (p, es') \<Rightarrow> Inr (p, es @ es'))))"

text \<open>
  One worker: the loop of \<^verbatim>\<open>processReqCh\<close> over the requests it receives. The result is
  the processor with its local maxima and the entries it wrote, in order; how the
  entries are cut into the buffers sent to \<^verbatim>\<open>writeCh\<close> is left out.
\<close>

fun process_reqs ::
  "('bk, 'bpl, 'pl) externals \<Rightarrow> 'rd env \<Rightarrow> processor \<Rightarrow> listReq list
     \<Rightarrow> error + (processor \<times> mapEntry list)" where
  "process_reqs ext env p [] = Inr (p, [])"
| "process_reqs ext env p ((lbuf, inp) # reqs) =
     (case process ext env p inp lbuf of
        Inl e \<Rightarrow> Inl e
      | Inr (p, es) \<Rightarrow>
          (case process_reqs ext env p reqs of
             Inl e \<Rightarrow> Inl e
           | Inr (p, es') \<Rightarrow> Inr (p, es @ es')))"

definition processReqCh ::
  "('bk, 'bpl, 'pl) externals \<Rightarrow> 'rd env \<Rightarrow> u64 \<Rightarrow> listReq list
     \<Rightarrow> error + (processor \<times> mapEntry list)" where
  "processReqCh ext env ts reqs =
     process_reqs ext env \<lparr>restoreTs = ts, maxUid = 0, maxNs = 0\<rparr> reqs"

text \<open>
  The workers take the requests from one channel. Which worker receives which request
  is not decided by the program: \<open>sched j\<close> names the worker (modulo their number) that
  receives request number \<open>j\<close>, and the theorems hold for every \<open>sched\<close>.
\<close>

definition worker_reqs :: "(nat \<Rightarrow> nat) \<Rightarrow> nat \<Rightarrow> nat \<Rightarrow> listReq list \<Rightarrow> listReq list" where
  "worker_reqs sched numGo w reqs =
     map snd (filter (\<lambda>jr. sched (fst jr) mod numGo = w) (enumerate 0 reqs))"

text \<open>
  The two compare-and-swap loops at the end of \<^verbatim>\<open>processReqCh\<close>, worker after worker,
  and \<^verbatim>\<open>g.Wait\<close>: an error of a worker is the error of the group.
\<close>

fun merge_maxima ::
  "(error + (processor \<times> mapEntry list)) list \<Rightarrow> u64 \<times> u64 \<Rightarrow> error + (u64 \<times> u64)" where
  "merge_maxima [] m = Inr m"
| "merge_maxima (Inl e # rs) m = Inl e"
| "merge_maxima (Inr (p, es) # rs) m =
     merge_maxima rs (max (fst m) (maxUid p), max (snd m) (maxNs p))"

definition run_pool ::
  "('bk, 'bpl, 'pl) externals \<Rightarrow> 'rd env \<Rightarrow> u64 \<Rightarrow> (nat \<Rightarrow> nat) \<Rightarrow> nat \<Rightarrow> listReq list
     \<Rightarrow> error + (u64 \<times> u64)" where
  "run_pool ext env ts sched numGo reqs =
     merge_maxima
       (map (\<lambda>w. processReqCh ext env ts (worker_reqs sched numGo w reqs)) [0..<numGo])
       (0, 0)"

subsection \<open>RunMapper\<close>

record mapResult =
  res_maxUid :: u64
  res_maxNs :: u64
  shouldDropAll :: bool
  res_dropAttr :: "string set"
  res_dropNs :: "u64 set"

text \<open>
  \<^verbatim>\<open>RunMapper\<close>: what the manifest walk did, and the error or the result returned. The
  map files themselves are the subject of \<open>writeNow\<close>.
\<close>

definition RunMapper ::
  "('bk, 'bpl, 'pl) externals \<Rightarrow> 'rd env \<Rightarrow> (nat \<Rightarrow> nat) \<Rightarrow> RestoreRequest
     \<Rightarrow> planState \<times> (error + mapResult)" where
  "RunMapper ext env sched req =
     (case url_Parse env (Location req) of
        Some e \<Rightarrow> (init_planState, Inl e)
      | None \<Rightarrow>
     if RestoreTs req = 0 then (init_planState, Inl InvalidRestoreTs)
     else case NewUriHandler env (Location req) of
        Some e \<Rightarrow> (init_planState, Inl e)
      | None \<Rightarrow>
     (case getManifestsToRestore env req of
        Inl e \<Rightarrow> (init_planState, Inl (Wrapped ''cannot retrieve manifests'' e))
      | Inr manifests \<Rightarrow>
     (case getEncConfig env req of
        Some e \<Rightarrow> (init_planState, Inl (Wrapped ''unable to get encryption config'' e))
      | None \<Rightarrow>
     (case GetKeys env req of
        Inl e \<Rightarrow> (init_planState, Inl e)
      | Inr encKey \<Rightarrow>
     (let numGo = max 2 (NumCPU env * 3 div 4) in
      case plan_loop env req encKey manifests 0 manifests init_planState of
        (st, Some e) \<Rightarrow> (st, Inl e)
      | (st, None) \<Rightarrow>
          (case run_pool ext env (RestoreTs req) sched numGo (requests st) of
             Inl e \<Rightarrow> (st, Inl (Wrapped ''from processKVList'' e))
           | Inr (mu, mn) \<Rightarrow>
               (st, Inr \<lparr>res_maxUid = mu, res_maxNs = max mn (maxBannedNs st),
                         shouldDropAll = dropAll st, res_dropAttr = dropAttr st,
                         res_dropNs = dropNs_acc st\<rparr>)))))))"

subsection \<open>The records of a run and their bounds\<close>

text \<open>
  The records that the batches of a list of requests decode to, and the statement that
  the key of a record decodes to a uid and a namespace below given bounds.
\<close>

definition batch_records :: "'rd env \<Rightarrow> bytes \<Rightarrow> KV list" where
  "batch_records env s = (case KVList_Unmarshal env s of Inl e \<Rightarrow> [] | Inr kvs \<Rightarrow> kvs)"

definition input_records :: "'rd env \<Rightarrow> listReq list \<Rightarrow> KV list" where
  "input_records env reqs = concat (map (\<lambda>rq. concat (map (batch_records env) (fst rq))) reqs)"

definition record_within :: "('bk, 'bpl, 'pl) externals \<Rightarrow> KV \<Rightarrow> u64 \<Rightarrow> u64 \<Rightarrow> bool" where
  "record_within ext kv mu mn =
     (case fromBackupKey ext (Key kv) of
        Inl e \<Rightarrow> False
      | Inr (restoreKey, ns) \<Rightarrow>
          (case x_Parse ext restoreKey of
             Inl e \<Rightarrow> False
           | Inr parsedKey \<Rightarrow> Uid parsedKey \<le> mu \<and> ns \<le> mn))"

subsection \<open>A concrete instance of the collaborators of RunMapper\<close>

text \<open>
  Stand-ins on which the theorems about \<open>RunMapper\<close> are instantiated: the manifests
  are what \<open>getManifestsToRestore\<close> returns; a stream is named by a string; every
  archive holds one batch of two records of the predicate \<open>name\<close>, in the namespaces 1
  and 2; there are four CPUs, hence three workers.
\<close>

definition manifest_of :: "u64 \<Rightarrow> u64 \<Rightarrow> string \<Rightarrow> DropOperation list \<Rightarrow> Manifest" where
  "manifest_of num ts compression ops =
     \<lparr>BackupNum = num, ValidReadTs = ts, Groups = [(1, [''name''])], Path = ''b'',
      Compression = compression, ManifestVersion = 2105, DropOperations = ops\<rparr>"

definition env0 :: "Manifest list \<Rightarrow> string env" where
  "env0 ms = \<lparr>
     url_Parse = (\<lambda>l. None),
     NewUriHandler = (\<lambda>l. None),
     getManifestsToRestore = (\<lambda>req. Inr ms),
     getEncConfig = (\<lambda>req. None),
     GetKeys = (\<lambda>req. Inr []),
     NumCPU = 4,
     backupFile = (\<lambda>path ts gid. path @ ''/r.backup''),
     Stream = (\<lambda>file. (file, None)),
     enc_GetReader = (\<lambda>k rd. (''aes:'' @ rd, None)),
     snappy_NewReader = (\<lambda>rd. ''snappy:'' @ rd),
     gzip_NewReader = (\<lambda>rd. (''gzip:'' @ rd, None)),
     Close_rd = (\<lambda>rd. None),
     getPredsInGroup =
       (\<lambda>m gid. case map_of (Groups m) gid of None \<Rightarrow> {} | Some ps \<Rightarrow> set ps),
     ParseUint = (\<lambda>s. if s = ''42'' then Inr 42 else Inl (External ''strconv.ParseUint'')),
     BanNamespace = (\<lambda>ns. None),
     read_batches = (\<lambda>rd. ([[[1]]], None)),
     KVList_Unmarshal = (\<lambda>s. Inr [kv_of [1, 0, 7] [5] 50, kv_of [2, 0, 9] [6] 60])\<rparr>"

definition req0 :: "u64 \<Rightarrow> RestoreRequest" where
  "req0 ts = \<lparr>Location = ''/backups'', RestoreTs = ts, GroupId = 1, IncrementalFrom = 0\<rparr>"

definition inp_of :: "bool \<Rightarrow> loadBackupInput" where
  "inp_of keep = \<lparr>preds = {''name''}, dropNs = {}, version = 2105, keepSchema = keep\<rparr>"

text \<open>
  Three chains of manifests, newest first: one archive whose manifest bans namespace 42;
  two archives of which the newest has no valid read timestamp; two valid archives.
\<close>

definition chain_ban :: "Manifest list" where
  "chain_ban = [manifest_of 1 10 ''snappy'' [\<lparr>DropOp = DropOperation_NS, DropValue = ''42''\<rparr>]]"

definition chain_invalid_newest :: "Manifest list" where
  "chain_invalid_newest = [manifest_of 2 0 ''snappy'' [], manifest_of 1 10 ''gzip'' []]"

definition chain_two :: "Manifest list" where
  "chain_two = [manifest_of 2 20 ''snappy'' [], manifest_of 1 10 ''gzip'' []]"

text \<open>Two archives of which the older has an unknown compression.\<close>

definition chain_bad_older :: "Manifest list" where
  "chain_bad_older = [manifest_of 2 20 ''snappy'' [], manifest_of 1 10 ''lz4'' []]"

definition plan_after :: "(nat \<times> loadBackupInput) list \<Rightarrow> u64 list \<Rightarrow> u64 \<Rightarrow> planState" where
  "plan_after ms bs b =
     \<lparr>dropAll = False, dropAttr = {}, dropNs_acc = {}, maxBannedNs = b, mapped = ms,
      requests = map (\<lambda>m. ([[1]], snd m)) ms, banned = bs\<rparr>"
section \<open>Properties\<close>

subsection \<open>Encodings\<close>

lemma length_PutUint16 [simp]: "length (PutUint16 v) = 2"
  by (simp add: PutUint16_def)

lemma length_PutUint64 [simp]: "length (PutUint64 v) = 8"
  by (simp add: PutUint64_def)

lemma Uint16_PutUint16 [simp]: "Uint16 (PutUint16 v) = v"
  unfolding Uint16_def PutUint16_def
  by (rule bit_word_eqI) (auto simp: bit_simps)

lemma byte_at_shift:
  "bit (push_bit s (ucast (ucast (drop_bit s v) :: byte)) :: u64) n
     \<longleftrightarrow> s \<le> n \<and> n < s + 8 \<and> n < 64 \<and> bit v n"
  by (auto simp: bit_simps)

lemma byte_at_zero: "bit (ucast (ucast v :: byte) :: u64) n \<longleftrightarrow> n < 8 \<and> bit v n"
  by (auto simp: bit_simps)

lemma Uint64_PutUint64 [simp]: "Uint64 (PutUint64 v) = v"
proof (rule bit_word_eqI)
  fix n :: nat
  assume "n < LENGTH(64)"
  then have n: "n < 64" by simp
  have "bit (Uint64 (PutUint64 v)) n \<longleftrightarrow> n < 64 \<and> bit v n"
    unfolding Uint64_def PutUint64_def
    by (simp only: bit_or_iff byte_at_shift byte_at_zero nth_Cons_0 nth_Cons_numeral
        nth_Cons_Suc numeral_nat diff_Suc_1 pred_numeral_simps) (use n in arith)
  with n show "bit (Uint64 (PutUint64 v)) n = bit v n" by simp
qed

lemma PutUint64_inject: "PutUint64 a = PutUint64 b \<longleftrightarrow> a = b"
  by (metis Uint64_PutUint64)

lemma length_KeyWithTs [simp]: "length (KeyWithTs key ts) = length key + 8"
  by (simp add: KeyWithTs_def)

subsection \<open>Framing of a map entry\<close>

lemma stored_length:
  "unat (Uint16 (take 2 (PutUint16 (of_nat n) @ rest))) = n mod 65536"
  by (simp add: unat_of_nat)



lemma toBuffer_in_range:
  assumes "toBuffer marshal kv ver = Inr me"
  shows "2 + unat (Uint16 (take 2 me)) \<le> length me"
proof -
  from assms obtain data where
    me: "me = PutUint16 (of_nat (length (KeyWithTs (Key kv) ver)))
           @ KeyWithTs (Key kv) ver @ data"
    by (auto simp: toBuffer_def Let_def split: sum.splits)
  let ?key = "KeyWithTs (Key kv) ver"
  have "length ?key mod 65536 \<le> length ?key" by simp
  moreover have "length me = 2 + length ?key + length data"
    unfolding me by (simp del: length_KeyWithTs)
  ultimately show ?thesis
    unfolding me stored_length by linarith
qed



subsection \<open>The key order\<close>

lemma bytes_Compare_sym: "bytes_Compare b a = - bytes_Compare a b"
  by (induction a b rule: bytes_Compare.induct) auto

lemma bytes_Compare_eq0: "bytes_Compare a b = 0 \<longleftrightarrow> a = b"
  by (induction a b rule: bytes_Compare.induct) auto

lemma bytes_Compare_trans:
  "bytes_Compare a b \<le> 0 \<Longrightarrow> bytes_Compare b c \<le> 0 \<Longrightarrow> bytes_Compare a c \<le> 0"
proof (induction a b arbitrary: c rule: bytes_Compare.induct)
  case 1
  then show ?case by simp
next
  case (2 y ys)
  then show ?case by (cases c) auto
next
  case (3 x xs)
  then show ?case by simp
next
  case (4 x xs y ys)
  then show ?case
    by (cases c) (auto split: if_splits)
qed

lemma CompareKeys_sym: "CompareKeys b a = - CompareKeys a b"
  unfolding CompareKeys_def Let_def
  using bytes_Compare_sym [of "take (length b - 8) b" "take (length a - 8) a"]
    bytes_Compare_sym [of "drop (length b - 8) b" "drop (length a - 8) a"]
  by simp

lemma CompareKeys_eq0: "CompareKeys a b = 0 \<longleftrightarrow> a = b"
proof
  assume "CompareKeys a b = 0"
  then have "take (length a - 8) a = take (length b - 8) b"
    and "drop (length a - 8) a = drop (length b - 8) b"
    by (auto simp: CompareKeys_def Let_def bytes_Compare_eq0 split: if_splits)
  then show "a = b" by (metis append_take_drop_id)
next
  assume "a = b"
  then show "CompareKeys a b = 0"
    by (simp add: CompareKeys_def bytes_Compare_eq0)
qed

lemma CompareKeys_trans:
  assumes "CompareKeys a b \<le> 0" and "CompareKeys b c \<le> 0"
  shows "CompareKeys a c \<le> 0"
proof -
  let ?p = "\<lambda>k::bytes. take (length k - 8) k" and ?s = "\<lambda>k::bytes. drop (length k - 8) k"
  have ab: "bytes_Compare (?p a) (?p b) \<le> 0"
    and bc: "bytes_Compare (?p b) (?p c) \<le> 0"
    using assms by (auto simp: CompareKeys_def Let_def split: if_splits)
  then have ac: "bytes_Compare (?p a) (?p c) \<le> 0" by (rule bytes_Compare_trans)
  show ?thesis
  proof (cases "bytes_Compare (?p a) (?p c) = 0")
    case False
    with ac show ?thesis by (simp add: CompareKeys_def Let_def)
  next
    case True
    then have eq: "?p a = ?p c" by (simp add: bytes_Compare_eq0)
    have "bytes_Compare (?p b) (?p a) \<le> 0" using bc eq by simp
    with ab have "bytes_Compare (?p a) (?p b) = 0"
      using bytes_Compare_sym [of "?p b" "?p a"] by simp
    then have eqb: "?p a = ?p b" by (simp add: bytes_Compare_eq0)
    have "bytes_Compare (?s a) (?s b) \<le> 0"
      using assms(1) eqb by (simp add: CompareKeys_def Let_def bytes_Compare_eq0)
    moreover have "bytes_Compare (?s b) (?s c) \<le> 0"
      using assms(2) eqb eq by (simp add: CompareKeys_def Let_def bytes_Compare_eq0)
    ultimately have "bytes_Compare (?s a) (?s c) \<le> 0" by (rule bytes_Compare_trans)
    with eq show ?thesis by (simp add: CompareKeys_def Let_def bytes_Compare_eq0)
  qed
qed

text \<open>Ascending order of entries and of keys under the native key comparison.\<close>

lemma not_entry_less: "\<not> entry_less r l \<longleftrightarrow> CompareKeys (mapEntry_Key l) (mapEntry_Key r) \<le> 0"
  using CompareKeys_sym [of "mapEntry_Key l" "mapEntry_Key r"]
  unfolding entry_less_def by linarith

subsection \<open>The sort\<close>

lemma mset_insertSlice: "mset (insertSlice lessf x ys) = add_mset x (mset ys)"
  by (induction ys) auto

lemma mset_SortSlice: "mset (SortSlice lessf buf) = mset buf"
  by (induction buf) (auto simp: SortSlice_def mset_insertSlice)

lemma set_insertSlice: "set (insertSlice lessf x ys) = insert x (set ys)"
  by (induction ys) auto

lemma sorted_insertSlice:
  assumes trans: "\<And>a b c. le a b \<Longrightarrow> le b c \<Longrightarrow> le a c"
    and total: "\<And>a b. \<not> le a b \<Longrightarrow> le b a"
    and le: "\<And>a b. le a b \<longleftrightarrow> \<not> lessf b a"
  shows "sorted_wrt le ys \<Longrightarrow> sorted_wrt le (insertSlice lessf x ys)"
proof (induction ys)
  case Nil
  then show ?case by simp
next
  case (Cons y ys)
  show ?case
  proof (cases "lessf y x")
    case True
    then have "le y x" using le total by blast
    with Cons show ?thesis
      using True by (auto simp: set_insertSlice)
  next
    case False
    then have xy: "le x y" by (simp add: le)
    then have "\<forall>z\<in>set ys. le x z" using Cons.prems trans by auto
    with xy Cons.prems False show ?thesis by simp
  qed
qed

lemma sorted_SortSlice:
  "sorted_wrt (\<lambda>l r. CompareKeys (mapEntry_Key l) (mapEntry_Key r) \<le> 0) (SortSlice entry_less buf)"
proof (induction buf)
  case Nil
  then show ?case by (simp add: SortSlice_def)
next
  case (Cons x buf)
  have "sorted_wrt (\<lambda>l r. CompareKeys (mapEntry_Key l) (mapEntry_Key r) \<le> 0)
          (insertSlice entry_less x (SortSlice entry_less buf))"
  proof (rule sorted_insertSlice [OF _ _ _ Cons.IH])
    fix a b c :: mapEntry
    show "CompareKeys (mapEntry_Key a) (mapEntry_Key b) \<le> 0 \<Longrightarrow>
          CompareKeys (mapEntry_Key b) (mapEntry_Key c) \<le> 0 \<Longrightarrow>
          CompareKeys (mapEntry_Key a) (mapEntry_Key c) \<le> 0"
      by (rule CompareKeys_trans)
    show "\<not> CompareKeys (mapEntry_Key a) (mapEntry_Key b) \<le> 0 \<Longrightarrow>
          CompareKeys (mapEntry_Key b) (mapEntry_Key a) \<le> 0"
      using CompareKeys_sym [of "mapEntry_Key b" "mapEntry_Key a"] by simp
    show "CompareKeys (mapEntry_Key a) (mapEntry_Key b) \<le> 0 \<longleftrightarrow> \<not> entry_less b a"
      by (simp add: not_entry_less)
  qed
  then show ?case by (simp add: SortSlice_def)
qed

lemma subseq_sorted_wrt:
  "subseq xs ys \<Longrightarrow> sorted_wrt P ys \<Longrightarrow> sorted_wrt P xs"
proof (induction rule: list_emb.induct)
  case (list_emb_Nil ys)
  then show ?case by simp
next
  case (list_emb_Cons xs ys y)
  then show ?case by simp
next
  case (list_emb_Cons2 x y xs ys)
  then have "set xs \<subseteq> set ys" by (auto elim: list_emb_set)
  with list_emb_Cons2 show ?case by auto
qed

subsection \<open>Partition keys\<close>

lemma partition_walk_snoc:
  "partition_walk P (xs @ [x]) = partition_step P (partition_walk P xs) x"
  by (simp add: partition_walk_def)

lemma partition_step_keys:
  "snd (partition_step P st s) =
     (if P \<le> fst st + 4 + length s \<and> \<not> (snd st \<noteq> [] \<and> mapEntry_Key s = last (snd st))
      then snd st @ [mapEntry_Key s] else snd st)"
  by (auto simp: partition_step_def Let_def last_conv_nth)

lemma partition_walk_inv:
  "subseq (snd (partition_walk P xs)) (map mapEntry_Key xs)
   \<and> distinct_adj (snd (partition_walk P xs))"
proof (induction xs rule: rev_induct)
  case Nil
  then show ?case by (simp add: partition_walk_def)
next
  case (snoc x xs)
  let ?ks = "snd (partition_walk P xs)"
  from snoc have sub: "subseq ?ks (map mapEntry_Key xs)" and adj: "distinct_adj ?ks"
    by simp_all
  show ?case
  proof (cases "P \<le> fst (partition_walk P xs) + 4 + length x
      \<and> \<not> (?ks \<noteq> [] \<and> mapEntry_Key x = last ?ks)")
    case True
    then have ks: "snd (partition_walk P (xs @ [x])) = ?ks @ [mapEntry_Key x]"
      by (simp add: partition_walk_snoc partition_step_keys)
    have "subseq (?ks @ [mapEntry_Key x]) (map mapEntry_Key xs @ [mapEntry_Key x])"
      using sub by (simp add: subseq_append')
    moreover have "distinct_adj (?ks @ [mapEntry_Key x])"
      using adj True by (auto simp: distinct_adj_append_iff)
    ultimately show ?thesis by (simp add: ks)
  next
    case False
    then have ks: "snd (partition_walk P (xs @ [x])) = ?ks"
      by (simp add: partition_walk_snoc partition_step_keys)
    have "subseq ?ks (map mapEntry_Key xs @ [mapEntry_Key x])"
      using sub by (rule subseq_rev_drop_many)
    with adj show ?thesis by (simp add: ks)
  qed
qed

lemma writeNow_Some:
  assumes "writeNow P mbuf = Some f"
  shows "entries f = SortSlice entry_less mbuf"
    and "PartitionKeys (header f) = snd (partition_walk P (entries f))"
  using assms by (auto simp: writeNow_def writeToDisk_def split: if_splits)

text \<open>
  C3. In every file that \<open>writeNow\<close> writes, the partition keys of the header are a
  subsequence of the keys of the (sorted) entries, ascending under the native key
  comparison, and no two consecutive ones are equal; walking the entries, a key is
  recorded exactly when the bytes accumulated since the last sample reach
  \<^verbatim>\<open>partitionBufSz\<close> and the key differs from the partition key recorded last.
\<close>

theorem C3_partition_keys:
  assumes "writeNow P mbuf = Some f"
  shows "subseq (PartitionKeys (header f)) (map mapEntry_Key (entries f))
    \<and> sorted_wrt (\<lambda>a b. CompareKeys a b \<le> 0) (PartitionKeys (header f))
    \<and> distinct_adj (PartitionKeys (header f))
    \<and> (\<forall>xs s. prefix (xs @ [s]) (entries f) \<longrightarrow>
          snd (partition_walk P (xs @ [s])) =
            (if P \<le> fst (partition_walk P xs) + 4 + length s
                \<and> \<not> (snd (partition_walk P xs) \<noteq> []
                      \<and> mapEntry_Key s = last (snd (partition_walk P xs)))
             then snd (partition_walk P xs) @ [mapEntry_Key s]
             else snd (partition_walk P xs)))"
proof -
  note f = writeNow_Some [OF assms]
  have sub: "subseq (PartitionKeys (header f)) (map mapEntry_Key (entries f))"
    and adj: "distinct_adj (PartitionKeys (header f))"
    using partition_walk_inv [of P "entries f"] by (simp_all add: f(2))
  have "sorted_wrt (\<lambda>l r. CompareKeys (mapEntry_Key l) (mapEntry_Key r) \<le> 0) (entries f)"
    unfolding f(1) by (rule sorted_SortSlice)
  then have "sorted_wrt (\<lambda>a b. CompareKeys a b \<le> 0) (map mapEntry_Key (entries f))"
    by (simp add: sorted_wrt_map)
  with sub have srt: "sorted_wrt (\<lambda>a b. CompareKeys a b \<le> 0) (PartitionKeys (header f))"
    by (rule subseq_sorted_wrt)
  from sub srt adj show ?thesis
    by (simp add: partition_walk_snoc partition_step_keys)
qed

lemma ascending_distinct_strict:
  assumes "ascending es" and "distinct (map mapEntry_Key es)"
  shows "strictly_ascending es"
  using assms unfolding ascending_def strictly_ascending_def
proof (induction es)
  case Nil
  then show ?case by simp
next
  case (Cons e es)
  have "CompareKeys (mapEntry_Key e) (mapEntry_Key r) < 0" if "r \<in> set es" for r
  proof -
    from Cons.prems that have "CompareKeys (mapEntry_Key e) (mapEntry_Key r) \<le> 0"
      and "mapEntry_Key e \<noteq> mapEntry_Key r"
      by auto
    then show ?thesis using CompareKeys_eq0 [of "mapEntry_Key e" "mapEntry_Key r"] by simp
  qed
  with Cons show ?case by simp
qed

text \<open>
  C1, as the code has it. The entries of every file that \<open>writeNow\<close> writes are the
  entries of the buffer, in ascending order of their keys under the native key
  comparison; the order is strict when no two entries of the buffer have the same key.
  Entries with equal keys are all kept, next to each other.
\<close>

theorem C1_entries_ascending:
  assumes "writeNow P mbuf = Some f"
  shows "ascending (entries f) \<and> mset (entries f) = mset mbuf
    \<and> (distinct (map mapEntry_Key mbuf) \<longrightarrow> strictly_ascending (entries f))"
proof -
  note f = writeNow_Some [OF assms]
  have asc: "ascending (entries f)"
    unfolding ascending_def f(1) by (rule sorted_SortSlice)
  have ms: "mset (entries f) = mset mbuf"
    unfolding f(1) by (rule mset_SortSlice)
  have "strictly_ascending (entries f)" if d: "distinct (map mapEntry_Key mbuf)"
  proof -
    have "mset (map mapEntry_Key (entries f)) = mset (map mapEntry_Key mbuf)"
      using ms by (metis mset_map)
    then have "distinct (map mapEntry_Key (entries f))"
      using d by (metis mset_eq_imp_distinct_iff)
    with asc show ?thesis by (rule ascending_distinct_strict)
  qed
  with asc ms show ?thesis by simp
qed

text \<open>Unfolding the writer on concrete buffers.\<close>

lemmas eval_defs = writeNow_def writeToDisk_def SortSlice_def entry_less_def CompareKeys_def
  mapEntry_Key_def Uint16_def partition_walk_def partition_step_def Let_def

theorem C1_entries_ascending_witness:
  "writeNow 20 [e1, e2, e3] = Some \<lparr>header = \<lparr>PartitionKeys = [mapEntry_Key e3]\<rparr>,
                                      entries = [e2, e3, e1]\<rparr>
   \<and> ascending [e2, e3, e1] \<and> mset [e2, e3, e1] = mset [e1, e2, e3]
   \<and> distinct (map mapEntry_Key [e1, e2, e3]) \<and> strictly_ascending [e2, e3, e1]"
proof -
  have h: "writeNow 20 [e1, e2, e3] = Some \<lparr>header = \<lparr>PartitionKeys = [mapEntry_Key e3]\<rparr>,
                                      entries = [e2, e3, e1]\<rparr>"
    by (simp add: eval_defs e1_def e2_def e3_def)
  have d: "distinct (map mapEntry_Key [e1, e2, e3])"
    by (simp add: mapEntry_Key_def Uint16_def e1_def e2_def e3_def)
  from C1_entries_ascending [OF h] d h show ?thesis by simp
qed

theorem C3_partition_keys_witness:
  "writeNow 20 [e1, e2, e3] = Some \<lparr>header = \<lparr>PartitionKeys = [mapEntry_Key e3]\<rparr>,
                                      entries = [e2, e3, e1]\<rparr>
   \<and> subseq [mapEntry_Key e3] (map mapEntry_Key [e2, e3, e1])
   \<and> sorted_wrt (\<lambda>a b. CompareKeys a b \<le> 0) [mapEntry_Key e3]
   \<and> distinct_adj [mapEntry_Key e3]
   \<and> prefix ([e2] @ [e3]) [e2, e3, e1]
   \<and> snd (partition_walk 20 ([e2] @ [e3])) = [mapEntry_Key e3]"
proof -
  let ?f = "\<lparr>header = \<lparr>PartitionKeys = [mapEntry_Key e3]\<rparr>, entries = [e2, e3, e1]\<rparr>"
  have h: "writeNow 20 [e1, e2, e3] = Some ?f"
    by (simp add: eval_defs e1_def e2_def e3_def)
  have p: "prefix ([e2] @ [e3]) (entries ?f)" by simp
  have w: "partition_walk 20 [e2] = (16, [])"
    by (simp add: partition_walk_def partition_step_def e2_def)
  have l: "length e3 = 12" by (simp add: e3_def)
  note c3 = C3_partition_keys [OF h]
  from c3 have a: "subseq [mapEntry_Key e3] (map mapEntry_Key [e2, e3, e1])"
    and b: "sorted_wrt (\<lambda>a b. CompareKeys a b \<le> 0) [mapEntry_Key e3]"
    and c: "distinct_adj [mapEntry_Key e3]"
    by simp_all
  from c3 p have "snd (partition_walk 20 ([e2] @ [e3])) =
            (if 20 \<le> fst (partition_walk 20 [e2]) + 4 + length e3
                \<and> \<not> (snd (partition_walk 20 [e2]) \<noteq> []
                      \<and> mapEntry_Key e3 = last (snd (partition_walk 20 [e2])))
             then snd (partition_walk 20 [e2]) @ [mapEntry_Key e3]
             else snd (partition_walk 20 [e2]))"
    by blast
  then have "snd (partition_walk 20 ([e2] @ [e3])) = [mapEntry_Key e3]"
    by (simp add: w l)
  with h a b c p show ?thesis by simp
qed

subsection \<open>The record processor\<close>

lemma processKV_passed:
  assumes "length (UserMeta kv) = 1"
    and "fromBackupKey ext (Key kv) = Inr (restoreKey, ns)"
    and "x_Parse ext restoreKey = Inr pk"
  shows "processKV ext p inp kv =
     (if schema_filter inp pk \<or> predicate_filter inp pk then Inr (seen p pk ns, [])
      else if is_posting ext kv then
        (case posting_case ext (seen p pk ns) inp kv restoreKey ns pk of
           Inl err \<Rightarrow> Inl err
         | Inr es \<Rightarrow> Inr (seen p pk ns, es))
      else if is_schema ext kv then
        (case schema_case ext (seen p pk ns) inp kv restoreKey pk of
           Inl err \<Rightarrow> Inl err
         | Inr es \<Rightarrow> Inr (seen p pk ns, es))
      else Inl (UnexpectedMeta (UserMeta kv)))"
  using assms
  by (auto simp: processKV_def Let_def schema_filter_def predicate_filter_def is_posting_def
      is_schema_def seen_def cong: sum.case_cong)

lemma processKV_Inr:
  assumes "processKV ext p inp kv = Inr (p', es)"
  obtains restoreKey ns pk where "length (UserMeta kv) = 1"
    and "fromBackupKey ext (Key kv) = Inr (restoreKey, ns)"
    and "x_Parse ext restoreKey = Inr pk"
  using assms
  by (auto simp: processKV_def split: if_splits sum.splits prod.splits)

lemma restoreTs_seen [simp]: "restoreTs (seen p pk ns) = restoreTs p"
  by (simp add: seen_def)

lemma maxUid_seen [simp]: "maxUid (seen p pk ns) = max (maxUid p) (Uid pk)"
  by (simp add: seen_def)

lemma maxNs_seen [simp]: "maxNs (seen p pk ns) = max (maxNs p) ns"
  by (simp add: seen_def)

lemma toBuffer_Inr:
  "toBuffer M kv ts = Inr e \<longleftrightarrow>
     (\<exists>data. M kv = Inr data
        \<and> e = PutUint16 (of_nat (length (KeyWithTs (Key kv) ts))) @ KeyWithTs (Key kv) ts @ data)"
  by (auto simp: toBuffer_def Let_def split: sum.splits)

lemma rollup_loop_Inr:
  "rollup_loop ext ts kvs = Inr es \<Longrightarrow>
     list_all2 (\<lambda>k e. toBuffer (KV_Marshal ext) (k\<lparr>Version := ts\<rparr>) (Version k) = Inr e) kvs es"
  by (induction kvs arbitrary: es) (auto simp: Let_def split: sum.splits)

lemma list_all2_right:
  "list_all2 P xs ys \<Longrightarrow> y \<in> set ys \<Longrightarrow> \<exists>x \<in> set xs. P x y"
  by (induction rule: list_all2_induct) auto

lemma rollup_loop_length:
  "rollup_loop ext ts kvs = Inr es \<Longrightarrow> length es = length kvs"
  by (drule rollup_loop_Inr) (rule list_all2_lengthD [symmetric])

lemma posting_case_Inr:
  assumes "posting_case ext p inp kv restoreKey ns pk = Inr es"
  shows "(ns \<in> dropNs inp \<and> es = []) \<or>
    (ns \<notin> dropNs inp \<and>
      (\<exists>bpl. BackupPostingList_Unmarshal ext (Value kv) = Inr bpl \<and>
        ((\<exists>e. es = [e] \<and>
            toBuffer (KV_Marshal ext)
              ((MarshalPostingList ext (FromBackupPostingList ext bpl))
                 \<lparr>Key := restoreKey, Version := restoreTs p\<rparr>) (Version kv) = Inr e)
         \<or> (\<exists>kvs. Rollup ext restoreKey (FromBackupPostingList ext bpl) (Version kv) = Inr kvs
              \<and> rollup_loop ext (restoreTs p) kvs = Inr es))))"
  using assms
  by (auto simp: posting_case_def Let_def split: if_splits sum.splits)

lemma schema_case_Inr:
  assumes "schema_case ext p inp kv restoreKey pk = Inr es"
  shows "(isl (migrate ext inp pk kv) \<and> es = []) \<or>
    (\<exists>val e. migrate ext inp pk kv = Inr val \<and> es = [e] \<and>
       toBuffer (KV_Marshal ext)
         (kv\<lparr>Value := val, StreamId := 0, Version := restoreTs p, Key := restoreKey\<rparr>)
         (Version kv) = Inr e)"
  using assms
  by (auto simp: schema_case_def Let_def split: sum.splits)

text \<open>
  C2. Every entry that \<open>processKV\<close> writes (posting passthrough, each record of a rollup,
  schema record) frames the marshalled bytes of a KV whose \<open>Version\<close> is the
  \<open>restoreTs\<close> of the mapper, under that KV's key followed by the eight big-endian bytes
  of the version of the source record. For the records of a rollup this rests on
  \<open>rollup_keeps_version\<close>.
\<close>

theorem C2_versions:
  assumes run: "processKV ext p inp kv = Inr (p', es)"
    and rollup: "rollup_keeps_version ext"
    and e: "e \<in> set es"
  shows "\<exists>kv' data. Version kv' = restoreTs p \<and> KV_Marshal ext kv' = Inr data
    \<and> toBuffer (KV_Marshal ext) kv' (Version kv) = Inr e
    \<and> e = PutUint16 (of_nat (length (KeyWithTs (Key kv') (Version kv))))
          @ (Key kv' @ PutUint64 (Version kv)) @ data
    \<and> Uint64 (drop (length (Key kv')) (KeyWithTs (Key kv') (Version kv))) = Version kv"
proof -
  have entry: "\<exists>kv' data. Version kv' = restoreTs p \<and> KV_Marshal ext kv' = Inr data
    \<and> toBuffer (KV_Marshal ext) kv' (Version kv) = Inr e
    \<and> e = PutUint16 (of_nat (length (KeyWithTs (Key kv') (Version kv))))
          @ (Key kv' @ PutUint64 (Version kv)) @ data
    \<and> Uint64 (drop (length (Key kv')) (KeyWithTs (Key kv') (Version kv))) = Version kv"
    if "toBuffer (KV_Marshal ext) k (Version kv) = Inr e" and "Version k = restoreTs p" for k
  proof -
    from that(1) obtain data where "KV_Marshal ext k = Inr data"
      and "e = PutUint16 (of_nat (length (KeyWithTs (Key k) (Version kv))))
          @ KeyWithTs (Key k) (Version kv) @ data"
      unfolding toBuffer_Inr by blast
    with that show ?thesis
      by (intro exI [of _ k] exI [of _ data]) (simp add: KeyWithTs_def)
  qed
  from run obtain restoreKey ns pk where meta: "length (UserMeta kv) = 1"
    and key: "fromBackupKey ext (Key kv) = Inr (restoreKey, ns)"
    and parse: "x_Parse ext restoreKey = Inr pk"
    by (rule processKV_Inr)
  note unfold = processKV_passed [OF meta key parse, of p inp]
  consider (posting) "posting_case ext (seen p pk ns) inp kv restoreKey ns pk = Inr es"
    | (schema) "schema_case ext (seen p pk ns) inp kv restoreKey pk = Inr es"
    using run e unfolding unfold by (auto split: if_splits sum.splits)
  then show ?thesis
  proof cases
    case posting
    from posting_case_Inr [OF posting] e
    consider (pass) bpl where
        "toBuffer (KV_Marshal ext)
              ((MarshalPostingList ext (FromBackupPostingList ext bpl))
                 \<lparr>Key := restoreKey, Version := restoreTs p\<rparr>) (Version kv) = Inr e"
      | (roll) bpl kvs where
        "Rollup ext restoreKey (FromBackupPostingList ext bpl) (Version kv) = Inr kvs"
        "rollup_loop ext (restoreTs p) kvs = Inr es"
      by auto
    then show ?thesis
    proof cases
      case pass
      then show ?thesis by (rule entry) simp
    next
      case roll
      from list_all2_right [OF rollup_loop_Inr [OF roll(2)] e] obtain k where k: "k \<in> set kvs"
        and buf: "toBuffer (KV_Marshal ext) (k\<lparr>Version := restoreTs p\<rparr>) (Version k) = Inr e"
        by blast
      from rollup roll(1) k have "Version k = Version kv"
        unfolding rollup_keeps_version_def by blast
      with buf show ?thesis by (intro entry [of "k\<lparr>Version := restoreTs p\<rparr>"]) simp_all
    qed
  next
    case schema
    from schema_case_Inr [OF schema] e obtain val where
      "toBuffer (KV_Marshal ext)
         (kv\<lparr>Value := val, StreamId := 0, Version := restoreTs p, Key := restoreKey\<rparr>)
         (Version kv) = Inr e"
      by auto
    then show ?thesis by (rule entry) simp
  qed
qed

lemma processKV_schema:
  assumes "length (UserMeta kv) = 1"
    and "fromBackupKey ext (Key kv) = Inr (restoreKey, ns)"
    and "x_Parse ext restoreKey = Inr pk"
    and "\<not> schema_filter inp pk" and "\<not> predicate_filter inp pk" and "is_schema ext kv"
  shows "processKV ext p inp kv =
     (case migrate ext inp pk kv of
        Inl err \<Rightarrow> Inr (seen p pk ns, [])
      | Inr val \<Rightarrow>
          (case toBuffer (KV_Marshal ext)
                  (kv\<lparr>Value := val, StreamId := 0, Version := restoreTs p, Key := restoreKey\<rparr>)
                  (Version kv) of
             Inl err \<Rightarrow> Inl err
           | Inr e \<Rightarrow> Inr (seen p pk ns, [e])))"
  using assms(4-6)
  by (simp add: processKV_passed [OF assms(1-3)] is_schema_def schema_case_def Let_def
      split: sum.splits)

lemma fields_from2103_Inr:
  "fields_from2103 ext schs = Inr schs' \<Longrightarrow>
     list_all2 (\<lambda>sch sch'. AttrFrom2103 ext (Predicate sch) = Inr (Predicate sch')) schs schs'"
  by (induction schs arbitrary: schs') (auto split: sum.splits)

lemma fields_from2103_Inl:
  "sch \<in> set schs \<Longrightarrow> isl (AttrFrom2103 ext (Predicate sch)) \<Longrightarrow>
     isl (fields_from2103 ext schs)"
  by (induction schs) (auto split: sum.splits)

text \<open>
  C5, as the code has it. For a record with one meta byte whose key decodes,
  \<open>processKV\<close> returns success with no entry exactly when the schema filter or the
  predicate filter applies, or the record is a posting record of a dropped namespace, or
  it is a schema record whose version migration fails (the case of C7). A posting list
  that is written, as it is or rolled up, makes at least one entry
  (\<open>rollup_nonempty\<close>).
\<close>

theorem C5_skip_cases:
  assumes meta: "length (UserMeta kv) = 1"
    and key: "fromBackupKey ext (Key kv) = Inr (restoreKey, ns)"
    and parse: "x_Parse ext restoreKey = Inr pk"
    and rollup: "rollup_nonempty ext"
  shows "(\<exists>p'. processKV ext p inp kv = Inr (p', [])) \<longleftrightarrow>
     schema_filter inp pk \<or> predicate_filter inp pk
     \<or> (is_posting ext kv \<and> ns \<in> dropNs inp)
     \<or> (is_schema ext kv \<and> isl (migrate ext inp pk kv))"
proof (cases "schema_filter inp pk \<or> predicate_filter inp pk")
  case True
  then show ?thesis by (auto simp: processKV_passed [OF meta key parse])
next
  case nofilter: False
  show ?thesis
  proof (cases "is_posting ext kv")
    case True
    have "posting_case ext (seen p pk ns) inp kv restoreKey ns pk = Inr [] \<longleftrightarrow> ns \<in> dropNs inp"
    proof
      assume "posting_case ext (seen p pk ns) inp kv restoreKey ns pk = Inr []"
      from posting_case_Inr [OF this] rollup show "ns \<in> dropNs inp"
        by (auto simp: rollup_nonempty_def dest: rollup_loop_length)
    next
      assume "ns \<in> dropNs inp"
      then show "posting_case ext (seen p pk ns) inp kv restoreKey ns pk = Inr []"
        by (simp add: posting_case_def)
    qed
    with nofilter True show ?thesis
      by (auto simp: processKV_passed [OF meta key parse] is_schema_def split: sum.splits)
  next
    case False
    show ?thesis
    proof (cases "is_schema ext kv")
      case True
      with nofilter have "processKV ext p inp kv =
        (case migrate ext inp pk kv of
           Inl err \<Rightarrow> Inr (seen p pk ns, [])
         | Inr val \<Rightarrow>
          (case toBuffer (KV_Marshal ext)
                  (kv\<lparr>Value := val, StreamId := 0, Version := restoreTs p, Key := restoreKey\<rparr>)
                  (Version kv) of
             Inl err \<Rightarrow> Inl err
           | Inr e \<Rightarrow> Inr (seen p pk ns, [e])))"
        by (intro processKV_schema [OF meta key parse]) simp_all
      with nofilter False True show ?thesis
        by (auto split: sum.splits)
    next
      case noschema: False
      with nofilter False show ?thesis
        by (simp add: processKV_passed [OF meta key parse])
    qed
  qed
qed

lemma fields_from2103_ok:
  "\<forall>sch \<in> set schs. \<not> isl (AttrFrom2103 ext (Predicate sch)) \<Longrightarrow>
     fields_from2103 ext schs =
       Inr (map (\<lambda>sch. sch\<lparr>Predicate := projr (AttrFrom2103 ext (Predicate sch))\<rparr>) schs)"
  by (induction schs) (auto split: sum.splits)

text \<open>
  C6. For a schema record that passes the filters the value written is decided by the
  version of the archive: at version 0 the type name and the predicate of every field of
  a type key go through \<open>GalaxyAttr\<close>, other keys keep their value; at version 2103 the
  predicate of a schema update, and the type name and the predicates of the fields of a
  type update, go through \<open>AttrFrom2103\<close>; from version 2105 on the value is unchanged. In
  every case the one entry is written from the record with \<open>StreamId\<close> set to zero,
  \<open>Version\<close> set to \<open>restoreTs\<close> and the restore key, under the version of the source.
\<close>

theorem C6_schema_migration:
  assumes meta: "length (UserMeta kv) = 1"
    and key: "fromBackupKey ext (Key kv) = Inr (restoreKey, ns)"
    and parse: "x_Parse ext restoreKey = Inr pk"
    and nofilter: "\<not> schema_filter inp pk" "\<not> predicate_filter inp pk"
    and schema: "is_schema ext kv"
  shows "(version inp = 0 \<and> IsType pk \<longrightarrow>
        migrate ext inp pk kv =
          (case TypeUpdate_Unmarshal ext (Value kv) of
             Inl err \<Rightarrow> Inl err
           | Inr u \<Rightarrow> TypeUpdate_Marshal ext
               (u\<lparr>TypeName := GalaxyAttr ext (TypeName u),
                  Fields := map (\<lambda>sch. sch\<lparr>Predicate := GalaxyAttr ext (Predicate sch)\<rparr>)
                              (Fields u)\<rparr>)))
    \<and> (version inp = 0 \<and> \<not> IsType pk \<longrightarrow> migrate ext inp pk kv = Inr (Value kv))
    \<and> (version inp = 2103 \<and> IsSchema pk \<longrightarrow>
        (\<forall>u a. SchemaUpdate_Unmarshal ext (Value kv) = Inr u
            \<and> AttrFrom2103 ext (Predicate u) = Inr a \<longrightarrow>
          migrate ext inp pk kv = SchemaUpdate_Marshal ext (u\<lparr>Predicate := a\<rparr>)))
    \<and> (version inp = 2103 \<and> \<not> IsSchema pk \<and> IsType pk \<longrightarrow>
        (\<forall>u tn. TypeUpdate_Unmarshal ext (Value kv) = Inr u
            \<and> AttrFrom2103 ext (TypeName u) = Inr tn
            \<and> (\<forall>sch \<in> set (Fields u). \<not> isl (AttrFrom2103 ext (Predicate sch))) \<longrightarrow>
          migrate ext inp pk kv = TypeUpdate_Marshal ext
            (u\<lparr>TypeName := tn,
               Fields := map (\<lambda>sch. sch\<lparr>Predicate := projr (AttrFrom2103 ext (Predicate sch))\<rparr>)
                          (Fields u)\<rparr>)))
    \<and> (version inp = 2103 \<and> \<not> IsSchema pk \<and> \<not> IsType pk \<longrightarrow>
        migrate ext inp pk kv = Inr (Value kv))
    \<and> (2105 \<le> version inp \<longrightarrow> migrate ext inp pk kv = Inr (Value kv))
    \<and> (\<forall>val. migrate ext inp pk kv = Inr val \<longrightarrow>
        processKV ext p inp kv =
          (case toBuffer (KV_Marshal ext)
                  (kv\<lparr>Value := val, StreamId := 0, Version := restoreTs p, Key := restoreKey\<rparr>)
                  (Version kv) of
             Inl err \<Rightarrow> Inl err
           | Inr e \<Rightarrow> Inr (seen p pk ns, [e])))"
proof -
  have v0t: "version inp = 0 \<and> IsType pk \<longrightarrow>
        migrate ext inp pk kv =
          (case TypeUpdate_Unmarshal ext (Value kv) of
             Inl err \<Rightarrow> Inl err
           | Inr u \<Rightarrow> TypeUpdate_Marshal ext
               (u\<lparr>TypeName := GalaxyAttr ext (TypeName u),
                  Fields := map (\<lambda>sch. sch\<lparr>Predicate := GalaxyAttr ext (Predicate sch)\<rparr>)
                              (Fields u)\<rparr>))"
    by (simp add: migrate_def appendNamespace_def Let_def split: sum.splits)
  have v0: "version inp = 0 \<and> \<not> IsType pk \<longrightarrow> migrate ext inp pk kv = Inr (Value kv)"
    by (simp add: migrate_def)
  have v2103s: "version inp = 2103 \<and> IsSchema pk \<longrightarrow>
        (\<forall>u a. SchemaUpdate_Unmarshal ext (Value kv) = Inr u
            \<and> AttrFrom2103 ext (Predicate u) = Inr a \<longrightarrow>
          migrate ext inp pk kv = SchemaUpdate_Marshal ext (u\<lparr>Predicate := a\<rparr>))"
    by (simp add: migrate_def changeFormat_def)
  have v2103t: "version inp = 2103 \<and> \<not> IsSchema pk \<and> IsType pk \<longrightarrow>
        (\<forall>u tn. TypeUpdate_Unmarshal ext (Value kv) = Inr u
            \<and> AttrFrom2103 ext (TypeName u) = Inr tn
            \<and> (\<forall>sch \<in> set (Fields u). \<not> isl (AttrFrom2103 ext (Predicate sch))) \<longrightarrow>
          migrate ext inp pk kv = TypeUpdate_Marshal ext
            (u\<lparr>TypeName := tn,
               Fields := map (\<lambda>sch. sch\<lparr>Predicate := projr (AttrFrom2103 ext (Predicate sch))\<rparr>)
                          (Fields u)\<rparr>))"
    by (simp add: migrate_def changeFormat_def fields_from2103_ok)
  have v2103n: "version inp = 2103 \<and> \<not> IsSchema pk \<and> \<not> IsType pk \<longrightarrow>
        migrate ext inp pk kv = Inr (Value kv)"
    by (simp add: migrate_def changeFormat_def)
  have v2105: "2105 \<le> version inp \<longrightarrow> migrate ext inp pk kv = Inr (Value kv)"
    by (simp add: migrate_def)
  have wr: "\<forall>val. migrate ext inp pk kv = Inr val \<longrightarrow>
        processKV ext p inp kv =
          (case toBuffer (KV_Marshal ext)
                  (kv\<lparr>Value := val, StreamId := 0, Version := restoreTs p, Key := restoreKey\<rparr>)
                  (Version kv) of
             Inl err \<Rightarrow> Inl err
           | Inr e \<Rightarrow> Inr (seen p pk ns, [e]))"
    by (simp add: processKV_schema [OF meta key parse nofilter schema])
  from v0t v0 v2103s v2103t v2103n v2105 wr show ?thesis by blast
qed

text \<open>
  C7. When the migration of a schema record fails (which happens only at version 0 on a
  type key and at version 2103), \<open>processKV\<close> returns success and writes nothing. The
  migration fails when the value does not decode or an attribute cannot be converted. A
  posting list that does not decode is an error of \<open>processKV\<close> instead.
\<close>

theorem C7_migration_failure_skips:
  assumes meta: "length (UserMeta kv) = 1"
    and key: "fromBackupKey ext (Key kv) = Inr (restoreKey, ns)"
    and parse: "x_Parse ext restoreKey = Inr pk"
    and nofilter: "\<not> schema_filter inp pk" "\<not> predicate_filter inp pk"
  shows "(is_schema ext kv \<and> isl (migrate ext inp pk kv) \<longrightarrow>
        processKV ext p inp kv = Inr (seen p pk ns, [])
        \<and> (version inp = 0 \<and> IsType pk \<or> version inp = 2103))
    \<and> (version inp = 0 \<and> IsType pk \<and> isl (TypeUpdate_Unmarshal ext (Value kv)) \<longrightarrow>
        isl (migrate ext inp pk kv))
    \<and> (version inp = 2103 \<and> IsSchema pk \<and> isl (SchemaUpdate_Unmarshal ext (Value kv)) \<longrightarrow>
        isl (migrate ext inp pk kv))
    \<and> (version inp = 2103 \<and> IsSchema pk
          \<and> (\<exists>u. SchemaUpdate_Unmarshal ext (Value kv) = Inr u
                \<and> isl (AttrFrom2103 ext (Predicate u))) \<longrightarrow>
        isl (migrate ext inp pk kv))
    \<and> (version inp = 2103 \<and> \<not> IsSchema pk \<and> IsType pk
          \<and> isl (TypeUpdate_Unmarshal ext (Value kv)) \<longrightarrow>
        isl (migrate ext inp pk kv))
    \<and> (version inp = 2103 \<and> \<not> IsSchema pk \<and> IsType pk
          \<and> (\<exists>u. TypeUpdate_Unmarshal ext (Value kv) = Inr u
                \<and> (isl (AttrFrom2103 ext (TypeName u))
                    \<or> (\<exists>sch \<in> set (Fields u). isl (AttrFrom2103 ext (Predicate sch))))) \<longrightarrow>
        isl (migrate ext inp pk kv))
    \<and> (is_posting ext kv \<and> ns \<notin> dropNs inp
          \<and> isl (BackupPostingList_Unmarshal ext (Value kv)) \<longrightarrow>
        isl (processKV ext p inp kv))"
proof -
  have skip: "is_schema ext kv \<and> isl (migrate ext inp pk kv) \<longrightarrow>
        processKV ext p inp kv = Inr (seen p pk ns, [])
        \<and> (version inp = 0 \<and> IsType pk \<or> version inp = 2103)"
  proof (intro impI conjI; elim conjE)
    assume s: "is_schema ext kv" and m: "isl (migrate ext inp pk kv)"
    from m show "processKV ext p inp kv = Inr (seen p pk ns, [])"
      by (auto simp: processKV_schema [OF meta key parse nofilter s] isl_def)
    from m show "version inp = 0 \<and> IsType pk \<or> version inp = 2103"
      by (auto simp: migrate_def split: if_splits)
  qed
  have t0: "version inp = 0 \<and> IsType pk \<and> isl (TypeUpdate_Unmarshal ext (Value kv)) \<longrightarrow>
        isl (migrate ext inp pk kv)"
    by (auto simp: migrate_def appendNamespace_def isl_def)
  have s1: "version inp = 2103 \<and> IsSchema pk \<and> isl (SchemaUpdate_Unmarshal ext (Value kv)) \<longrightarrow>
        isl (migrate ext inp pk kv)"
    by (auto simp: migrate_def changeFormat_def isl_def)
  have s2: "version inp = 2103 \<and> IsSchema pk
          \<and> (\<exists>u. SchemaUpdate_Unmarshal ext (Value kv) = Inr u
                \<and> isl (AttrFrom2103 ext (Predicate u))) \<longrightarrow>
        isl (migrate ext inp pk kv)"
    by (auto simp: migrate_def changeFormat_def isl_def)
  have t1: "version inp = 2103 \<and> \<not> IsSchema pk \<and> IsType pk
          \<and> isl (TypeUpdate_Unmarshal ext (Value kv)) \<longrightarrow>
        isl (migrate ext inp pk kv)"
    by (auto simp: migrate_def changeFormat_def isl_def)
  have t2: "version inp = 2103 \<and> \<not> IsSchema pk \<and> IsType pk
          \<and> (\<exists>u. TypeUpdate_Unmarshal ext (Value kv) = Inr u
                \<and> (isl (AttrFrom2103 ext (TypeName u))
                    \<or> (\<exists>sch \<in> set (Fields u). isl (AttrFrom2103 ext (Predicate sch))))) \<longrightarrow>
        isl (migrate ext inp pk kv)"
  proof (intro impI; elim conjE exE)
    fix u
    assume v: "version inp = 2103" "\<not> IsSchema pk" "IsType pk"
      and u: "TypeUpdate_Unmarshal ext (Value kv) = Inr u"
      and bad: "isl (AttrFrom2103 ext (TypeName u))
                    \<or> (\<exists>sch \<in> set (Fields u). isl (AttrFrom2103 ext (Predicate sch)))"
    from bad show "isl (migrate ext inp pk kv)"
    proof
      assume "isl (AttrFrom2103 ext (TypeName u))"
      with v u show ?thesis by (auto simp: migrate_def changeFormat_def isl_def)
    next
      assume "\<exists>sch \<in> set (Fields u). isl (AttrFrom2103 ext (Predicate sch))"
      then have "isl (fields_from2103 ext (Fields u))"
        by (auto intro: fields_from2103_Inl)
      with v u show ?thesis
        by (auto simp: migrate_def changeFormat_def isl_def split: sum.splits)
    qed
  qed
  have fatal: "is_posting ext kv \<and> ns \<notin> dropNs inp
          \<and> isl (BackupPostingList_Unmarshal ext (Value kv)) \<longrightarrow>
        isl (processKV ext p inp kv)"
    using nofilter
    by (auto simp: processKV_passed [OF meta key parse] posting_case_def isl_def)
  from skip t0 s1 s2 t1 t2 fatal show ?thesis by blast
qed

text \<open>Unfolding the record processor on the concrete collaborators.\<close>

lemmas kv_defs = processKV_def ext0_def fromBackupKey_def p0_def inp0_def kv_of_def
  kv_type_def kv_schema_def pk_type_def pk_schema_def pk_data_def posting_case_def
  schema_case_def migrate_def appendNamespace_def changeFormat_def name_of_def toBuffer_def
  KeyWithTs_def PutUint64_def PutUint16_def Let_def schema_filter_def predicate_filter_def
  is_posting_def is_schema_def seen_def

lemma rollup_ext0: "rollup_keeps_version ext0" "rollup_nonempty ext0"
  by (auto simp: rollup_keeps_version_def rollup_nonempty_def ext0_def kv_of_def)

theorem C2_versions_witness:
  "processKV ext0 p0 (inp0 2105) (kv_of [1, 0, 7] [5, 6, 7, 8] 50) =
     Inr (\<lparr>restoreTs = 100, maxUid = 7, maxNs = 1\<rparr>,
          [[0, 10, 0, 7] @ PutUint64 50 @ [100, 0, 5, 6],
           [0, 11, 0, 7, 1] @ PutUint64 50 @ [100, 0, 7, 8]])
   \<and> rollup_keeps_version ext0
   \<and> (\<exists>kv' data. Version kv' = 100 \<and> KV_Marshal ext0 kv' = Inr data
        \<and> toBuffer (KV_Marshal ext0) kv' 50 = Inr ([0, 11, 0, 7, 1] @ PutUint64 50 @ [100, 0, 7, 8])
        \<and> [0, 11, 0, 7, 1] @ PutUint64 50 @ [100, 0, 7, 8] =
            PutUint16 (of_nat (length (KeyWithTs (Key kv') 50))) @ (Key kv' @ PutUint64 50) @ data
        \<and> Uint64 (drop (length (Key kv')) (KeyWithTs (Key kv') 50)) = 50)"
proof -
  have run: "processKV ext0 p0 (inp0 2105) (kv_of [1, 0, 7] [5, 6, 7, 8] 50) =
     Inr (\<lparr>restoreTs = 100, maxUid = 7, maxNs = 1\<rparr>,
          [[0, 10, 0, 7] @ PutUint64 50 @ [100, 0, 5, 6],
           [0, 11, 0, 7, 1] @ PutUint64 50 @ [100, 0, 7, 8]])"
    by (simp add: kv_defs)
  have mem: "[0, 11, 0, 7, 1] @ PutUint64 50 @ [100, 0, 7, 8] \<in>
      set [[0, 10, 0, 7] @ PutUint64 50 @ [100, 0, 5, 6],
           [0, 11, 0, 7, 1] @ PutUint64 50 @ [100, 0, 7, 8]]"
    by simp
  have v: "Version (kv_of [1, 0, 7] [5, 6, 7, 8] 50) = 50" "restoreTs p0 = 100"
    by (simp_all add: kv_of_def p0_def)
  from C2_versions [OF run rollup_ext0(1) mem] run rollup_ext0(1) show ?thesis
    unfolding v by blast
qed

theorem C5_skip_cases_witness:
  "(\<exists>p'. processKV ext0 p0 ((inp0 2105)\<lparr>preds := {}\<rparr>) (kv_of [1, 0, 7] [5] 50) = Inr (p', []))
   \<and> predicate_filter ((inp0 2105)\<lparr>preds := {}\<rparr>) pk_data
   \<and> (\<exists>p'. processKV ext0 p0 (inp0 0) (kv_type []) = Inr (p', []))
   \<and> is_schema ext0 (kv_type []) \<and> isl (migrate ext0 (inp0 0) pk_type (kv_type []))"
proof -
  have meta: "length (UserMeta (kv_of [1, 0, 7] [5] 50)) = 1"
    and key: "fromBackupKey ext0 (Key (kv_of [1, 0, 7] [5] 50)) = Inr ([0, 7], 1)"
    and parse: "x_Parse ext0 [0, 7] = Inr pk_data"
    and f: "predicate_filter ((inp0 2105)\<lparr>preds := {}\<rparr>) pk_data"
    by (simp_all add: kv_defs)
  have meta': "length (UserMeta (kv_type [])) = 1"
    and key': "fromBackupKey ext0 (Key (kv_type [])) = Inr ([2, 0], 1)"
    and parse': "x_Parse ext0 [2, 0] = Inr pk_type"
    and s: "is_schema ext0 (kv_type [])"
    and m: "isl (migrate ext0 (inp0 0) pk_type (kv_type []))"
    by (simp_all add: kv_defs)
  from C5_skip_cases [OF meta key parse rollup_ext0(2), of p0 "(inp0 2105)\<lparr>preds := {}\<rparr>"] f
  have a: "\<exists>p'. processKV ext0 p0 ((inp0 2105)\<lparr>preds := {}\<rparr>) (kv_of [1, 0, 7] [5] 50) = Inr (p', [])"
    by blast
  from C5_skip_cases [OF meta' key' parse' rollup_ext0(2), of p0 "inp0 0"] s m
  have b: "\<exists>p'. processKV ext0 p0 (inp0 0) (kv_type []) = Inr (p', [])"
    by blast
  from a b f s m show ?thesis by blast
qed

text \<open>
  C5 as stated fails: a type record of an archive of version 0 whose value does not
  decode passes the three filters (\<open>keepSchema\<close> holds, a type key is exempt from the
  predicate filter, the record is not a posting record), and yet \<open>processKV\<close> returns
  success with no entry.
\<close>

theorem C5_exactly_counterexample:
  "processKV ext0 p0 (inp0 0) (kv_type []) = Inr (\<lparr>restoreTs = 100, maxUid = 0, maxNs = 1\<rparr>, [])
   \<and> fromBackupKey ext0 (Key (kv_type [])) = Inr ([2, 0], 1)
   \<and> x_Parse ext0 [2, 0] = Inr pk_type
   \<and> \<not> schema_filter (inp0 0) pk_type
   \<and> \<not> predicate_filter (inp0 0) pk_type
   \<and> \<not> is_posting ext0 (kv_type [])"
  by (simp add: kv_defs)

lemma type_record:
  "length (UserMeta (kv_type val)) = 1"
  "fromBackupKey ext0 (Key (kv_type val)) = Inr ([2, 0], 1)"
  "is_schema ext0 (kv_type val)"
  by (simp_all add: kv_defs)

lemma type_key:
  "x_Parse ext0 [2, 0] = Inr pk_type"
  by (simp add: kv_defs)

lemma type_passes:
  "\<not> schema_filter (inp0 v) pk_type" "\<not> predicate_filter (inp0 v) pk_type"
  by (simp_all add: kv_defs)

lemma schema_record:
  "length (UserMeta (kv_schema val)) = 1"
  "fromBackupKey ext0 (Key (kv_schema val)) = Inr ([1, 0], 1)"
  "is_schema ext0 (kv_schema val)"
  by (simp_all add: kv_defs)

lemma schema_key:
  "x_Parse ext0 [1, 0] = Inr pk_schema"
  by (simp add: kv_defs)

lemma schema_passes:
  "\<not> schema_filter (inp0 v) pk_schema" "\<not> predicate_filter (inp0 v) pk_schema"
  by (simp_all add: kv_defs)

theorem C6_schema_migration_witness:
  "processKV ext0 p0 (inp0 0) (kv_type [3, 4]) =
     Inr (\<lparr>restoreTs = 100, maxUid = 0, maxNs = 1\<rparr>,
          [[0, 10, 2, 0] @ PutUint64 50 @ [100, 0]
             @ map of_char ''0-Person'' @ [0] @ map of_char ''0-name'' @ [0]])
   \<and> processKV ext0 p0 (inp0 2103) (kv_type [1, 2]) =
     Inr (\<lparr>restoreTs = 100, maxUid = 0, maxNs = 1\<rparr>,
          [[0, 10, 2, 0] @ PutUint64 50 @ [100, 0]
             @ map of_char ''1-Person'' @ [0] @ map of_char ''1-name'' @ [0]])
   \<and> processKV ext0 p0 (inp0 2103) (kv_schema [2]) =
     Inr (\<lparr>restoreTs = 100, maxUid = 0, maxNs = 1\<rparr>,
          [[0, 10, 1, 0] @ PutUint64 50 @ [100, 0] @ map of_char ''1-name''])
   \<and> processKV ext0 p0 (inp0 2105) (kv_schema [2]) =
     Inr (\<lparr>restoreTs = 100, maxUid = 0, maxNs = 1\<rparr>,
          [[0, 10, 1, 0] @ PutUint64 50 @ [100, 0, 2]])"
proof -
  note t0 = C6_schema_migration [OF type_record(1,2) [of "[3, 4]"] type_key type_passes [of 0] type_record(3) [of "[3, 4]"], of p0]
  note t1 = C6_schema_migration [OF type_record(1,2) [of "[1, 2]"] type_key type_passes [of 2103] type_record(3) [of "[1, 2]"], of p0]
  note s1 = C6_schema_migration [OF schema_record(1,2) [of "[2]"] schema_key schema_passes [of 2103] schema_record(3) [of "[2]"], of p0]
  note s2 = C6_schema_migration [OF schema_record(1,2) [of "[2]"] schema_key schema_passes [of 2105] schema_record(3) [of "[2]"], of p0]
  let ?tu = "\<lambda>n f. \<lparr>TypeName = n, Fields = [\<lparr>Predicate = f\<rparr>]\<rparr>"
  have "migrate ext0 (inp0 0) pk_type (kv_type [3, 4]) =
      TypeUpdate_Marshal ext0 (?tu ''0-Person'' ''0-name'')"
    using t0 by (simp add: inp0_def pk_type_def kv_type_def kv_of_def ext0_def name_of_def)
  then have a: "migrate ext0 (inp0 0) pk_type (kv_type [3, 4]) =
      Inr (map of_char ''0-Person'' @ [0] @ map of_char ''0-name'' @ [0])"
    by (simp add: ext0_def)
  have u: "TypeUpdate_Unmarshal ext0 (Value (kv_type [1, 2])) = Inr (?tu ''1|Person'' ''1|name'')"
    and tn: "AttrFrom2103 ext0 ''1|Person'' = Inr ''1-Person''"
    and fl: "AttrFrom2103 ext0 ''1|name'' = Inr ''1-name''"
    by (simp_all add: ext0_def kv_type_def kv_of_def name_of_def)
  have "migrate ext0 (inp0 2103) pk_type (kv_type [1, 2]) =
      TypeUpdate_Marshal ext0 (?tu ''1-Person'' ''1-name'')"
    using t1 u tn fl by (simp add: inp0_def pk_type_def)
  then have b: "migrate ext0 (inp0 2103) pk_type (kv_type [1, 2]) =
      Inr (map of_char ''1-Person'' @ [0] @ map of_char ''1-name'' @ [0])"
    by (simp add: ext0_def)
  have su: "SchemaUpdate_Unmarshal ext0 (Value (kv_schema [2])) = Inr \<lparr>Predicate = ''1|name''\<rparr>"
    by (simp add: ext0_def kv_schema_def kv_of_def name_of_def)
  have "migrate ext0 (inp0 2103) pk_schema (kv_schema [2]) =
      SchemaUpdate_Marshal ext0 \<lparr>Predicate = ''1-name''\<rparr>"
    using s1 su fl by (simp add: inp0_def pk_schema_def)
  then have c: "migrate ext0 (inp0 2103) pk_schema (kv_schema [2]) = Inr (map of_char ''1-name'')"
    by (simp add: ext0_def)
  have d: "migrate ext0 (inp0 2105) pk_schema (kv_schema [2]) = Inr [2]"
    using s2 by (simp add: inp0_def kv_schema_def kv_of_def)
  have w: "toBuffer (KV_Marshal ext0)
       (kv_type val\<lparr>Value := val', StreamId := 0, Version := restoreTs p0, Key := [2, 0]\<rparr>)
       (Version (kv_type val)) = Inr ([0, 10, 2, 0] @ PutUint64 50 @ [100, 0] @ val')"
    "toBuffer (KV_Marshal ext0)
       (kv_schema val\<lparr>Value := val', StreamId := 0, Version := restoreTs p0, Key := [1, 0]\<rparr>)
       (Version (kv_schema val)) = Inr ([0, 10, 1, 0] @ PutUint64 50 @ [100, 0] @ val')"
    "seen p0 pk_type 1 = \<lparr>restoreTs = 100, maxUid = 0, maxNs = 1\<rparr>"
    "seen p0 pk_schema 1 = \<lparr>restoreTs = 100, maxUid = 0, maxNs = 1\<rparr>"
    for val val'
    by (simp_all add: toBuffer_def ext0_def kv_type_def kv_schema_def kv_of_def p0_def
        KeyWithTs_def PutUint16_def seen_def pk_type_def pk_schema_def)
  from t0 a have "processKV ext0 p0 (inp0 0) (kv_type [3, 4]) =
     Inr (\<lparr>restoreTs = 100, maxUid = 0, maxNs = 1\<rparr>,
          [[0, 10, 2, 0] @ PutUint64 50 @ [100, 0]
             @ map of_char ''0-Person'' @ [0] @ map of_char ''0-name'' @ [0]])"
    by (simp add: w)
  moreover from t1 b have "processKV ext0 p0 (inp0 2103) (kv_type [1, 2]) =
     Inr (\<lparr>restoreTs = 100, maxUid = 0, maxNs = 1\<rparr>,
          [[0, 10, 2, 0] @ PutUint64 50 @ [100, 0]
             @ map of_char ''1-Person'' @ [0] @ map of_char ''1-name'' @ [0]])"
    by (simp add: w)
  moreover from s1 c have "processKV ext0 p0 (inp0 2103) (kv_schema [2]) =
     Inr (\<lparr>restoreTs = 100, maxUid = 0, maxNs = 1\<rparr>,
          [[0, 10, 1, 0] @ PutUint64 50 @ [100, 0] @ map of_char ''1-name''])"
    by (simp add: w)
  moreover from s2 d have "processKV ext0 p0 (inp0 2105) (kv_schema [2]) =
     Inr (\<lparr>restoreTs = 100, maxUid = 0, maxNs = 1\<rparr>,
          [[0, 10, 1, 0] @ PutUint64 50 @ [100, 0, 2]])"
    by (simp add: w)
  ultimately show ?thesis by blast
qed

theorem C7_migration_failure_skips_witness:
  "isl (TypeUpdate_Unmarshal ext0 (Value (kv_type [])))
   \<and> processKV ext0 p0 (inp0 0) (kv_type []) = Inr (\<lparr>restoreTs = 100, maxUid = 0, maxNs = 1\<rparr>, [])
   \<and> isl (AttrFrom2103 ext0 ''name'')
   \<and> processKV ext0 p0 (inp0 2103) (kv_type [1, 4]) =
       Inr (\<lparr>restoreTs = 100, maxUid = 0, maxNs = 1\<rparr>, [])
   \<and> isl (BackupPostingList_Unmarshal ext0 (Value (kv_of [1, 0, 7] [] 50)))
   \<and> isl (processKV ext0 p0 (inp0 2105) (kv_of [1, 0, 7] [] 50))"
proof -
  note t0 = C7_migration_failure_skips [OF type_record(1,2) [of "[]"] type_key type_passes [of 0], of p0]
  note t1 = C7_migration_failure_skips [OF type_record(1,2) [of "[1, 4]"] type_key type_passes [of 2103], of p0]
  have meta: "length (UserMeta (kv_of [1, 0, 7] [] 50)) = 1"
    and key: "fromBackupKey ext0 (Key (kv_of [1, 0, 7] [] 50)) = Inr ([0, 7], 1)"
    and parse: "x_Parse ext0 [0, 7] = Inr pk_data"
    and nf: "\<not> schema_filter (inp0 2105) pk_data" "\<not> predicate_filter (inp0 2105) pk_data"
    and po: "is_posting ext0 (kv_of [1, 0, 7] [] 50)" "1 \<notin> dropNs (inp0 2105)"
    by (simp_all add: kv_defs)
  note d = C7_migration_failure_skips [OF meta key parse nf, of p0]
  have s: "seen p0 pk_type 1 = \<lparr>restoreTs = 100, maxUid = 0, maxNs = 1\<rparr>"
    by (simp add: seen_def p0_def pk_type_def)
  have bad0: "isl (TypeUpdate_Unmarshal ext0 (Value (kv_type [])))"
    by (simp add: ext0_def kv_type_def kv_of_def)
  have v0: "version (inp0 0) = 0" "IsType pk_type" "\<not> IsSchema pk_type" "version (inp0 2103) = 2103"
    by (simp_all add: inp0_def pk_type_def)
  from t0 bad0 v0 type_record(3) [of "[]"]
  have a: "processKV ext0 p0 (inp0 0) (kv_type []) = Inr (seen p0 pk_type 1, [])"
    by blast
  have u: "TypeUpdate_Unmarshal ext0 (Value (kv_type [1, 4])) =
      Inr \<lparr>TypeName = ''1|Person'', Fields = [\<lparr>Predicate = ''name''\<rparr>]\<rparr>"
    and bad1: "isl (AttrFrom2103 ext0 ''name'')"
    by (simp_all add: ext0_def kv_type_def kv_of_def name_of_def)
  have "\<exists>u. TypeUpdate_Unmarshal ext0 (Value (kv_type [1, 4])) = Inr u
      \<and> (isl (AttrFrom2103 ext0 (TypeName u))
          \<or> (\<exists>sch \<in> set (Fields u). isl (AttrFrom2103 ext0 (Predicate sch))))"
    using u bad1 by simp
  with t1 v0 type_record(3) [of "[1, 4]"]
  have b: "processKV ext0 p0 (inp0 2103) (kv_type [1, 4]) = Inr (seen p0 pk_type 1, [])"
    by blast
  have bad2: "isl (BackupPostingList_Unmarshal ext0 (Value (kv_of [1, 0, 7] [] 50)))"
    by (simp add: ext0_def kv_of_def)
  with d po have c: "isl (processKV ext0 p0 (inp0 2105) (kv_of [1, 0, 7] [] 50))"
    by blast
  from a b c bad0 bad1 bad2 show ?thesis unfolding s by blast
qed

text \<open>
  C1 as stated fails: two records with the same key and version (here the same record
  twice in one batch) are written as two entries with the same key; the buffer is
  sorted with both, and equal keys are not strictly ascending.
\<close>

theorem C1_strict_counterexample:
  "process_kvs ext0 p0 (inp0 2105) [kv_of [1, 0, 7] [5] 50, kv_of [1, 0, 7] [5] 50] =
     Inr (\<lparr>restoreTs = 100, maxUid = 7, maxNs = 1\<rparr>,
          [[0, 10, 0, 7, 0, 0, 0, 0, 0, 0, 0, 50, 100, 0, 5],
           [0, 10, 0, 7, 0, 0, 0, 0, 0, 0, 0, 50, 100, 0, 5]])
   \<and> writeNow 4194304 [[0, 10, 0, 7, 0, 0, 0, 0, 0, 0, 0, 50, 100, 0, 5],
                        [0, 10, 0, 7, 0, 0, 0, 0, 0, 0, 0, 50, 100, 0, 5]] \<noteq> None
   \<and> \<not> strictly_ascending (entries (the (writeNow 4194304
          [[0, 10, 0, 7, 0, 0, 0, 0, 0, 0, 0, 50, 100, 0, 5],
           [0, 10, 0, 7, 0, 0, 0, 0, 0, 0, 0, 50, 100, 0, 5]])))"
proof -
  have "process_kvs ext0 p0 (inp0 2105) [kv_of [1, 0, 7] [5] 50, kv_of [1, 0, 7] [5] 50] =
     Inr (\<lparr>restoreTs = 100, maxUid = 7, maxNs = 1\<rparr>,
          [[0, 10, 0, 7, 0, 0, 0, 0, 0, 0, 0, 50, 100, 0, 5],
           [0, 10, 0, 7, 0, 0, 0, 0, 0, 0, 0, 50, 100, 0, 5]])"
    by (simp add: kv_defs)
  moreover have "writeNow 4194304 [[0, 10, 0, 7, 0, 0, 0, 0, 0, 0, 0, 50, 100, 0, 5],
                        [0, 10, 0, 7, 0, 0, 0, 0, 0, 0, 0, 50, 100, 0, 5]] \<noteq> None
   \<and> \<not> strictly_ascending (entries (the (writeNow 4194304
          [[0, 10, 0, 7, 0, 0, 0, 0, 0, 0, 0, 50, 100, 0, 5],
           [0, 10, 0, 7, 0, 0, 0, 0, 0, 0, 0, 50, 100, 0, 5]])))"
    by (simp add: eval_defs strictly_ascending_def)
  ultimately show ?thesis by blast
qed

subsection \<open>The backup reader and the configuration\<close>

lemma WithCompression_unknown:
  assumes "compression \<notin> {''snappy'', ''gzip'', ''''}"
  shows "WithCompression env br compression =
    br\<lparr>br_err := Some (case br_err br of None \<Rightarrow> UnknownCompression compression | Some e \<Rightarrow> e)\<rparr>"
  using assms by (cases "br_err br") (auto simp: WithCompression_def setErr_def)

lemma map_group_unknown:
  assumes "Compression manifest \<notin> {''snappy'', ''gzip'', ''''}"
  shows "\<exists>e. map_group env req encKey manifests i manifest st =
    (st, Some (Wrapped ''newBackupReader'' e))"
  by (simp add: map_group_def Let_def WithCompression_unknown [OF assms])

text \<open>
  C8, as the code has it. A restore timestamp of zero makes \<open>RunMapper\<close> return an error before any manifest
  is visited: nothing is mapped and nothing is sent to the workers. A compression other
  than \<^verbatim>\<open>snappy\<close>, \<^verbatim>\<open>gzip\<close> and the empty string leaves the reader and its closers as they
  are and makes the error of the reader non-nil (the error of the compression, unless an
  earlier one is latched); \<open>RunMapper\<close> then returns the error wrapped as
  \<^verbatim>\<open>newBackupReader\<close>, without handing this archive to \<open>Map\<close>.
\<close>

theorem C8_configuration_errors:
  "(RestoreTs req = 0 \<longrightarrow>
      fst (RunMapper ext env sched req) = init_planState
      \<and> isl (snd (RunMapper ext env sched req)))
   \<and> (compression \<notin> {''snappy'', ''gzip'', ''''} \<longrightarrow>
      br_err (WithCompression env br compression) =
        Some (case br_err br of None \<Rightarrow> UnknownCompression compression | Some e \<Rightarrow> e)
      \<and> br_r (WithCompression env br compression) = br_r br
      \<and> toClose (WithCompression env br compression) = toClose br)
   \<and> (Compression manifest \<notin> {''snappy'', ''gzip'', ''''} \<longrightarrow>
      (\<exists>e. map_group env req encKey manifests i manifest st =
         (st, Some (Wrapped ''newBackupReader'' e))))
   \<and> (Compression manifest \<notin> {''snappy'', ''gzip'', ''''}
        \<and> \<not> BackupNum manifest < IncrementalFrom req \<and> \<not> dropAll st
        \<and> ValidReadTs manifest \<noteq> 0 \<and> map_of (Groups manifest) (GroupId req) \<noteq> None \<longrightarrow>
      (\<exists>e. plan_loop env req encKey manifests i (manifest # rest) st =
         (st, Some (Wrapped ''newBackupReader'' e))))"
proof -
  have ts: "RestoreTs req = 0 \<longrightarrow>
      fst (RunMapper ext env sched req) = init_planState
      \<and> isl (snd (RunMapper ext env sched req))"
    by (simp add: RunMapper_def split: option.splits)
  have wc: "compression \<notin> {''snappy'', ''gzip'', ''''} \<longrightarrow>
      br_err (WithCompression env br compression) =
        Some (case br_err br of None \<Rightarrow> UnknownCompression compression | Some e \<Rightarrow> e)
      \<and> br_r (WithCompression env br compression) = br_r br
      \<and> toClose (WithCompression env br compression) = toClose br"
    by (simp add: WithCompression_unknown)
  have mg: "Compression manifest \<notin> {''snappy'', ''gzip'', ''''} \<longrightarrow>
      (\<exists>e. map_group env req encKey manifests i manifest st =
         (st, Some (Wrapped ''newBackupReader'' e)))"
    using map_group_unknown by blast
  have pl: "Compression manifest \<notin> {''snappy'', ''gzip'', ''''}
        \<and> \<not> BackupNum manifest < IncrementalFrom req \<and> \<not> dropAll st
        \<and> ValidReadTs manifest \<noteq> 0 \<and> map_of (Groups manifest) (GroupId req) \<noteq> None \<longrightarrow>
      (\<exists>e. plan_loop env req encKey manifests i (manifest # rest) st =
         (st, Some (Wrapped ''newBackupReader'' e)))"
  proof (intro impI; elim conjE)
    assume c: "Compression manifest \<notin> {''snappy'', ''gzip'', ''''}"
      and a: "\<not> BackupNum manifest < IncrementalFrom req" "\<not> dropAll st"
        "ValidReadTs manifest \<noteq> 0" "map_of (Groups manifest) (GroupId req) \<noteq> None"
    from map_group_unknown [OF c] obtain e where
      "map_group env req encKey manifests i manifest st =
         (st, Some (Wrapped ''newBackupReader'' e))"
      by blast
    moreover from a(4) have "Groups manifest \<noteq> []" by auto
    ultimately show "\<exists>e. plan_loop env req encKey manifests i (manifest # rest) st =
         (st, Some (Wrapped ''newBackupReader'' e))"
      using a by auto
  qed
  from ts wc mg pl show ?thesis by blast
qed

subsection \<open>The manifest walk\<close>

lemma mapped_drop_ops:
  "drop_ops env ops st = (st', e) \<Longrightarrow> mapped st' = mapped st"
  by (induction env ops st rule: drop_ops.induct)
    (auto split: DropOperation_DropOp.splits if_splits sum.splits option.splits)

lemma mapped_map_group:
  assumes "map_group env req encKey manifests i manifest st = (st', e)"
  shows "mapped st' = mapped st
    \<or> (\<exists>inp. mapped st' = mapped st @ [(i, inp)] \<and> (keepSchema inp \<longleftrightarrow> i = 0))"
  using assms
  by (auto simp: map_group_def Let_def split: option.splits prod.splits)

lemma plan_loop_break:
  "BackupNum manifest < IncrementalFrom req \<or> dropAll st \<Longrightarrow>
     plan_loop env req encKey manifests i (manifest # rest) st = (st, None)"
  by auto

lemma plan_loop_skip:
  "\<not> (BackupNum manifest < IncrementalFrom req \<or> dropAll st) \<Longrightarrow>
   ValidReadTs manifest = 0 \<or> length (Groups manifest) = 0 \<Longrightarrow>
     plan_loop env req encKey manifests i (manifest # rest) st =
       plan_loop env req encKey manifests (i + 1) rest st"
  by auto

lemma plan_loop_step:
  assumes "\<not> (BackupNum manifest < IncrementalFrom req \<or> dropAll st)"
    and "\<not> (ValidReadTs manifest = 0 \<or> length (Groups manifest) = 0)"
    and "(case map_of (Groups manifest) (GroupId req) of
            None \<Rightarrow> (st, None)
          | Some ps \<Rightarrow> map_group env req encKey manifests i manifest st) = (st1, err1)"
    and "drop_ops env (DropOperations manifest) st1 = (st2, err2)"
  shows "plan_loop env req encKey manifests i (manifest # rest) st =
     (case err1 of
        Some err \<Rightarrow> (st1, Some err)
      | None \<Rightarrow>
          (case err2 of
             Some err \<Rightarrow> (st2, Some err)
           | None \<Rightarrow> plan_loop env req encKey manifests (i + 1) rest st2))"
  using assms by (auto split: option.splits)

lemma plan_loop_mapped:
  assumes "plan_loop env req encKey manifests i rest st = (st', e)"
    and "\<forall>m \<in> set (mapped st). (keepSchema (snd m) \<longleftrightarrow> fst m = 0) \<and> fst m < i"
    and "sorted_wrt (<) (map fst (mapped st))"
  shows "(\<forall>m \<in> set (mapped st'). keepSchema (snd m) \<longleftrightarrow> fst m = 0)
    \<and> sorted_wrt (<) (map fst (mapped st'))"
  using assms
proof (induction rest arbitrary: i st)
  case Nil
  then show ?case by auto
next
  case (Cons manifest rest)
  show ?case
  proof (cases "BackupNum manifest < IncrementalFrom req \<or> dropAll st")
    case True
    from Cons.prems(1) have "st' = st" unfolding plan_loop_break [OF True] by simp
    with Cons.prems show ?thesis by auto
  next
    case go: False
    show ?thesis
    proof (cases "ValidReadTs manifest = 0 \<or> length (Groups manifest) = 0")
      case True
      from Cons.prems(1)
      have run: "plan_loop env req encKey manifests (i + 1) rest st = (st', e)"
        unfolding plan_loop_skip [OF go True] .
      from Cons.prems(2)
      have "\<forall>m \<in> set (mapped st). (keepSchema (snd m) \<longleftrightarrow> fst m = 0) \<and> fst m < i + 1"
        by (auto intro: less_SucI)
      from Cons.IH [OF run this Cons.prems(3)] show ?thesis .
    next
      case valid: False
      obtain st1 err1 where mg:
        "(case map_of (Groups manifest) (GroupId req) of
            None \<Rightarrow> (st, None)
          | Some ps \<Rightarrow> map_group env req encKey manifests i manifest st) = (st1, err1)"
        by fastforce
      then have m1: "mapped st1 = mapped st
          \<or> (\<exists>inp. mapped st1 = mapped st @ [(i, inp)] \<and> (keepSchema inp \<longleftrightarrow> i = 0))"
        by (auto split: option.splits dest: mapped_map_group)
      have lt: "\<forall>m \<in> set (mapped st). fst m < i"
        using Cons.prems(2) by blast
      from m1 Cons.prems(2)
      have inv1: "\<forall>m \<in> set (mapped st1). (keepSchema (snd m) \<longleftrightarrow> fst m = 0) \<and> fst m < i + 1"
        by (elim disjE exE conjE) (simp_all add: less_SucI)
      from m1 have srt1: "sorted_wrt (<) (map fst (mapped st1))"
      proof (elim disjE exE conjE)
        assume "mapped st1 = mapped st"
        with Cons.prems(3) show ?thesis by simp
      next
        fix inp assume "mapped st1 = mapped st @ [(i, inp)]"
        with Cons.prems(3) lt show ?thesis by (simp add: sorted_wrt_append)
      qed
      obtain st2 err2 where d: "drop_ops env (DropOperations manifest) st1 = (st2, err2)"
        by fastforce
      then have m2: "mapped st2 = mapped st1" by (rule mapped_drop_ops)
      note step = plan_loop_step [OF go valid mg d, of rest]
      show ?thesis
      proof (cases err1)
        case (Some err)
        with Cons.prems(1) have "st' = st1" unfolding step by simp
        with inv1 srt1 show ?thesis by auto
      next
        case None
        show ?thesis
        proof (cases err2)
          case (Some err)
          with None Cons.prems(1) have "st' = st2" unfolding step by simp
          with inv1 srt1 m2 show ?thesis by auto
        next
          case err2: None
          with None Cons.prems(1)
          have run: "plan_loop env req encKey manifests (i + 1) rest st2 = (st', e)"
            unfolding step by simp
          from inv1 srt1 m2 show ?thesis
            by (intro Cons.IH [OF run]) simp_all
        qed
      qed
    qed
  qed
qed

lemma at_most_one_first:
  "sorted_wrt (<) (map fst xs) \<Longrightarrow> length (filter (\<lambda>m. fst m = (0::nat)) xs) \<le> 1"
proof (induction xs)
  case Nil
  then show ?case by simp
next
  case (Cons x xs)
  show ?case
  proof (cases "fst x = 0")
    case True
    with Cons.prems have "\<forall>m \<in> set xs. fst m \<noteq> 0" by auto
    then have "filter (\<lambda>m. fst m = 0) xs = []" by (simp add: filter_empty_conv)
    with True show ?thesis by simp
  next
    case False
    with Cons show ?thesis by simp
  qed
qed

lemma RunMapper_plan:
  assumes "RunMapper ext env sched req = (st, res)"
  shows "st = init_planState
    \<or> (\<exists>encKey manifests e.
          plan_loop env req encKey manifests 0 manifests init_planState = (st, e))"
  using assms
  by (auto simp: RunMapper_def Let_def split: option.splits sum.splits if_splits prod.splits)

text \<open>
  C9, as the code has it. Among the load descriptors handed to \<open>Map\<close> in one run,
  \<open>keepSchema\<close> is true exactly for the descriptor of the manifest at index 0, the newest;
  the manifests are mapped in the order of the chain, each at most once, so \<open>keepSchema\<close>
  is true for at most one archive, and for one precisely when the archive of the newest
  manifest is mapped.
\<close>

theorem C9_keepSchema_newest_only:
  assumes "RunMapper ext env sched req = (st, res)"
  shows "(\<forall>m \<in> set (mapped st). keepSchema (snd m) \<longleftrightarrow> fst m = 0)
    \<and> sorted_wrt (<) (map fst (mapped st))
    \<and> length (filter (\<lambda>m. keepSchema (snd m)) (mapped st)) \<le> 1
    \<and> (length (filter (\<lambda>m. keepSchema (snd m)) (mapped st)) = 1
          \<longleftrightarrow> 0 \<in> fst ` set (mapped st))"
proof -
  have inv: "(\<forall>m \<in> set (mapped st). keepSchema (snd m) \<longleftrightarrow> fst m = 0)
    \<and> sorted_wrt (<) (map fst (mapped st))"
    using RunMapper_plan [OF assms]
  proof
    assume "st = init_planState"
    then show ?thesis by (simp add: init_planState_def)
  next
    assume "\<exists>encKey manifests e.
          plan_loop env req encKey manifests 0 manifests init_planState = (st, e)"
    then obtain encKey manifests e where
      "plan_loop env req encKey manifests 0 manifests init_planState = (st, e)"
      by blast
    then show ?thesis
      by (rule plan_loop_mapped) (simp_all add: init_planState_def)
  qed
  then have eq: "filter (\<lambda>m. keepSchema (snd m)) (mapped st) = filter (\<lambda>m. fst m = 0) (mapped st)"
    by (intro filter_cong) auto
  from inv have le: "length (filter (\<lambda>m. fst m = 0) (mapped st)) \<le> 1"
    by (intro at_most_one_first) simp
  have "filter (\<lambda>m. fst m = 0) (mapped st) \<noteq> [] \<longleftrightarrow> 0 \<in> fst ` set (mapped st)"
    by (force simp: filter_empty_conv)
  with le have "length (filter (\<lambda>m. fst m = 0) (mapped st)) = 1
      \<longleftrightarrow> 0 \<in> fst ` set (mapped st)"
    by (cases "filter (\<lambda>m. fst m = 0) (mapped st)") auto
  with inv le show ?thesis unfolding eq by blast
qed

subsection \<open>The maxima\<close>

lemma record_within_mono:
  "record_within ext kv mu mn \<Longrightarrow> mu \<le> mu' \<Longrightarrow> mn \<le> mn' \<Longrightarrow> record_within ext kv mu' mn'"
  by (auto simp: record_within_def split: sum.splits prod.splits)

lemma processKV_seen:
  assumes "processKV ext p inp kv = Inr (p', es)"
  shows "\<exists>restoreKey ns pk. fromBackupKey ext (Key kv) = Inr (restoreKey, ns)
    \<and> x_Parse ext restoreKey = Inr pk \<and> p' = seen p pk ns"
proof -
  from assms obtain restoreKey ns pk where meta: "length (UserMeta kv) = 1"
    and key: "fromBackupKey ext (Key kv) = Inr (restoreKey, ns)"
    and parse: "x_Parse ext restoreKey = Inr pk"
    by (rule processKV_Inr)
  from assms have "p' = seen p pk ns"
    unfolding processKV_passed [OF meta key parse]
    by (auto split: if_splits sum.splits)
  with key parse show ?thesis by blast
qed

lemma processKV_maxima:
  assumes "processKV ext p inp kv = Inr (p', es)"
  shows "maxUid p \<le> maxUid p'" "maxNs p \<le> maxNs p'"
    "record_within ext kv (maxUid p') (maxNs p')"
  using processKV_seen [OF assms] by (auto simp: record_within_def)

lemma process_kvs_maxima:
  assumes "process_kvs ext p inp kvs = Inr (p', es)"
  shows "maxUid p \<le> maxUid p' \<and> maxNs p \<le> maxNs p'
    \<and> (\<forall>kv \<in> set kvs. record_within ext kv (maxUid p') (maxNs p'))"
  using assms
proof (induction kvs arbitrary: p es)
  case Nil
  then show ?case by simp
next
  case (Cons kv kvs)
  from Cons.prems obtain p1 es1 es2 where one: "processKV ext p inp kv = Inr (p1, es1)"
    and rest: "process_kvs ext p1 inp kvs = Inr (p', es2)"
    by (auto split: sum.splits prod.splits)
  note a = processKV_maxima [OF one]
  from Cons.IH [OF rest] have b: "maxUid p1 \<le> maxUid p'" "maxNs p1 \<le> maxNs p'"
    "\<forall>kv \<in> set kvs. record_within ext kv (maxUid p') (maxNs p')"
    by blast+
  from a(3) b(1,2) have "record_within ext kv (maxUid p') (maxNs p')"
    by (rule record_within_mono)
  with a b show ?case by auto
qed

lemma process_maxima:
  assumes "process ext env p inp lbuf = Inr (p', es)"
  shows "maxUid p \<le> maxUid p' \<and> maxNs p \<le> maxNs p'
    \<and> (\<forall>s \<in> set lbuf. \<forall>kv \<in> set (batch_records env s).
          record_within ext kv (maxUid p') (maxNs p'))"
  using assms
proof (induction lbuf arbitrary: p es)
  case Nil
  then show ?case by simp
next
  case (Cons s ss)
  from Cons.prems obtain kvs p1 es1 es2 where u: "KVList_Unmarshal env s = Inr kvs"
    and one: "process_kvs ext p inp kvs = Inr (p1, es1)"
    and rest: "process ext env p1 inp ss = Inr (p', es2)"
    by (auto split: sum.splits prod.splits)
  from process_kvs_maxima [OF one] have a: "maxUid p \<le> maxUid p1" "maxNs p \<le> maxNs p1"
    "\<forall>kv \<in> set kvs. record_within ext kv (maxUid p1) (maxNs p1)"
    by blast+
  from Cons.IH [OF rest] have b: "maxUid p1 \<le> maxUid p'" "maxNs p1 \<le> maxNs p'"
    "\<forall>s \<in> set ss. \<forall>kv \<in> set (batch_records env s).
          record_within ext kv (maxUid p') (maxNs p')"
    by blast+
  from a(3) b(1,2) have "\<forall>kv \<in> set kvs. record_within ext kv (maxUid p') (maxNs p')"
    by (blast intro: record_within_mono)
  with a b u show ?case by (auto simp: batch_records_def)
qed

lemma process_reqs_maxima:
  assumes "process_reqs ext env p reqs = Inr (p', es)"
  shows "maxUid p \<le> maxUid p' \<and> maxNs p \<le> maxNs p'
    \<and> (\<forall>kv \<in> set (input_records env reqs). record_within ext kv (maxUid p') (maxNs p'))"
  using assms
proof (induction reqs arbitrary: p es)
  case Nil
  then show ?case by (simp add: input_records_def)
next
  case (Cons rq reqs)
  obtain lbuf inp where rq: "rq = (lbuf, inp)" by (cases rq)
  from Cons.prems obtain p1 es1 es2 where one: "process ext env p inp lbuf = Inr (p1, es1)"
    and rest: "process_reqs ext env p1 reqs = Inr (p', es2)"
    unfolding rq by (auto split: sum.splits prod.splits)
  from process_maxima [OF one] have a: "maxUid p \<le> maxUid p1" "maxNs p \<le> maxNs p1"
    "\<forall>s \<in> set lbuf. \<forall>kv \<in> set (batch_records env s).
          record_within ext kv (maxUid p1) (maxNs p1)"
    by blast+
  from Cons.IH [OF rest] have b: "maxUid p1 \<le> maxUid p'" "maxNs p1 \<le> maxNs p'"
    "\<forall>kv \<in> set (input_records env reqs). record_within ext kv (maxUid p') (maxNs p')"
    by blast+
  from a(3) b(1,2) have "\<forall>s \<in> set lbuf. \<forall>kv \<in> set (batch_records env s).
          record_within ext kv (maxUid p') (maxNs p')"
    by (blast intro: record_within_mono)
  with a b show ?case by (auto simp: input_records_def rq)
qed

lemma merge_maxima_Inr:
  assumes "merge_maxima rs m = Inr m'"
  shows "fst m \<le> fst m' \<and> snd m \<le> snd m'
    \<and> (\<forall>r \<in> set rs. \<exists>p es. r = Inr (p, es) \<and> maxUid p \<le> fst m' \<and> maxNs p \<le> snd m')"
  using assms
proof (induction rs m rule: merge_maxima.induct)
  case (1 m)
  then show ?case by simp
next
  case (2 e rs m)
  then show ?case by simp
next
  case (3 p es rs m)
  from "3.prems" have "merge_maxima rs (max (fst m) (maxUid p), max (snd m) (maxNs p)) = Inr m'"
    by simp
  from "3.IH" [OF this]
  have a: "max (fst m) (maxUid p) \<le> fst m'" "max (snd m) (maxNs p) \<le> snd m'"
    and b: "\<forall>r \<in> set rs. \<exists>p es. r = Inr (p, es) \<and> maxUid p \<le> fst m' \<and> maxNs p \<le> snd m'"
    by simp_all
  from a have "fst m \<le> fst m'" "snd m \<le> snd m'" "maxUid p \<le> fst m'" "maxNs p \<le> snd m'"
    by simp_all
  with b show ?case by auto
qed

lemma worker_reqs_covers:
  assumes "rq \<in> set reqs" and "0 < numGo"
  shows "\<exists>w < numGo. rq \<in> set (worker_reqs sched numGo w reqs)"
proof -
  from assms(1) obtain j where j: "j < length reqs" "reqs ! j = rq"
    by (auto simp: in_set_conv_nth)
  then have "(j, rq) \<in> set (enumerate 0 reqs)"
    by (auto simp: in_set_enumerate_eq)
  then have "rq \<in> set (worker_reqs sched numGo (sched j mod numGo) reqs)"
    by (force simp: worker_reqs_def)
  moreover from assms(2) have "sched j mod numGo < numGo" by simp
  ultimately show ?thesis by blast
qed

lemma input_records_mono:
  "set rs \<subseteq> set reqs \<Longrightarrow> set (input_records env rs) \<subseteq> set (input_records env reqs)"
  by (auto simp: input_records_def)

lemma input_records_member:
  "kv \<in> set (input_records env reqs) \<Longrightarrow>
     \<exists>rq \<in> set reqs. kv \<in> set (input_records env [rq])"
  by (auto simp: input_records_def)

lemma run_pool_maxima:
  assumes "run_pool ext env ts sched numGo reqs = Inr (mu, mn)" and "0 < numGo"
  shows "\<forall>kv \<in> set (input_records env reqs). record_within ext kv mu mn"
proof
  fix kv assume "kv \<in> set (input_records env reqs)"
  then obtain rq where rq: "rq \<in> set reqs" and kv: "kv \<in> set (input_records env [rq])"
    by (blast dest: input_records_member)
  from worker_reqs_covers [OF rq assms(2)] obtain w where w: "w < numGo"
    and mine: "rq \<in> set (worker_reqs sched numGo w reqs)"
    by blast
  let ?r = "processReqCh ext env ts (worker_reqs sched numGo w reqs)"
  from w have "?r \<in> set (map (\<lambda>w. processReqCh ext env ts (worker_reqs sched numGo w reqs))
      [0..<numGo])"
    by simp
  with merge_maxima_Inr [OF assms(1) [unfolded run_pool_def]]
  obtain p es where r: "?r = Inr (p, es)" and le: "maxUid p \<le> mu" "maxNs p \<le> mn"
    by fastforce
  from mine have "set (input_records env [rq])
      \<subseteq> set (input_records env (worker_reqs sched numGo w reqs))"
    by (intro input_records_mono) simp
  with kv process_reqs_maxima [OF r [unfolded processReqCh_def]]
  have "record_within ext kv (maxUid p) (maxNs p)" by blast
  with le show "record_within ext kv mu mn" by (blast intro: record_within_mono)
qed

lemma banned_drop_ops:
  "drop_ops env ops st = (st', e) \<Longrightarrow> \<forall>ns \<in> set (banned st). ns \<le> maxBannedNs st \<Longrightarrow>
     \<forall>ns \<in> set (banned st'). ns \<le> maxBannedNs st'"
proof (induction env ops st rule: drop_ops.induct)
  case (1 env st)
  then show ?case by simp
next
  case (2 env dop ops st)
  show ?case
  proof (cases "DropOp dop")
    case DropOperation_ALL
    with 2 show ?thesis by simp
  next
    case DropOperation_DATA
    with 2 show ?thesis by (auto split: if_splits sum.splits)
  next
    case DropOperation_ATTR
    with 2 show ?thesis by simp
  next
    case DropOperation_NS
    show ?thesis
    proof (cases "ParseUint env (DropValue dop)")
      case (Inl err)
      with DropOperation_NS 2 show ?thesis by auto
    next
      case (Inr ns)
      show ?thesis
      proof (cases "BanNamespace env ns")
        case (Some err)
        with DropOperation_NS Inr 2 show ?thesis by auto
      next
        case None
        have "\<forall>n \<in> set (banned (st\<lparr>banned := banned st @ [ns],
                  maxBannedNs := max (maxBannedNs st) ns\<rparr>)).
              n \<le> maxBannedNs (st\<lparr>banned := banned st @ [ns],
                  maxBannedNs := max (maxBannedNs st) ns\<rparr>)"
          using "2.prems"(2) by (auto simp: max_def)
        moreover from "2.prems"(1) DropOperation_NS Inr None
        have "drop_ops env ops (st\<lparr>banned := banned st @ [ns],
                  maxBannedNs := max (maxBannedNs st) ns\<rparr>) = (st', e)"
          by simp
        ultimately show ?thesis
          using "2.IH"(5) [OF DropOperation_NS Inr None] by blast
      qed
    qed
  qed
qed

lemma banned_map_group:
  assumes "map_group env req encKey manifests i manifest st = (st', e)"
  shows "banned st' = banned st \<and> maxBannedNs st' = maxBannedNs st"
  using assms
  by (auto simp: map_group_def Let_def split: option.splits prod.splits)

lemma plan_loop_banned:
  assumes "plan_loop env req encKey manifests i rest st = (st', e)"
    and "\<forall>ns \<in> set (banned st). ns \<le> maxBannedNs st"
  shows "\<forall>ns \<in> set (banned st'). ns \<le> maxBannedNs st'"
  using assms
proof (induction rest arbitrary: i st)
  case Nil
  then show ?case by auto
next
  case (Cons manifest rest)
  show ?case
  proof (cases "BackupNum manifest < IncrementalFrom req \<or> dropAll st")
    case True
    from Cons.prems(1) have "st' = st" unfolding plan_loop_break [OF True] by simp
    with Cons.prems show ?thesis by simp
  next
    case go: False
    show ?thesis
    proof (cases "ValidReadTs manifest = 0 \<or> length (Groups manifest) = 0")
      case True
      from Cons.prems(1)
      have "plan_loop env req encKey manifests (i + 1) rest st = (st', e)"
        unfolding plan_loop_skip [OF go True] .
      from Cons.IH [OF this Cons.prems(2)] show ?thesis .
    next
      case valid: False
      obtain st1 err1 where mg:
        "(case map_of (Groups manifest) (GroupId req) of
            None \<Rightarrow> (st, None)
          | Some ps \<Rightarrow> map_group env req encKey manifests i manifest st) = (st1, err1)"
        by fastforce
      then have "banned st1 = banned st \<and> maxBannedNs st1 = maxBannedNs st"
        by (auto split: option.splits dest: banned_map_group)
      with Cons.prems(2) have inv1: "\<forall>ns \<in> set (banned st1). ns \<le> maxBannedNs st1"
        by simp
      obtain st2 err2 where d: "drop_ops env (DropOperations manifest) st1 = (st2, err2)"
        by fastforce
      from banned_drop_ops [OF d inv1]
      have inv2: "\<forall>ns \<in> set (banned st2). ns \<le> maxBannedNs st2" .
      note step = plan_loop_step [OF go valid mg d, of rest]
      show ?thesis
      proof (cases err1)
        case (Some err)
        with Cons.prems(1) have "st' = st1" unfolding step by simp
        with inv1 show ?thesis by simp
      next
        case None
        show ?thesis
        proof (cases err2)
          case (Some err)
          with None Cons.prems(1) have "st' = st2" unfolding step by simp
          with inv2 show ?thesis by simp
        next
          case e2: None
          with None Cons.prems(1)
          have "plan_loop env req encKey manifests (i + 1) rest st2 = (st', e)"
            unfolding step by simp
          from Cons.IH [OF this inv2] show ?thesis .
        qed
      qed
    qed
  qed
qed

lemma RunMapper_Inr:
  assumes "RunMapper ext env sched req = (st, Inr res)"
  obtains encKey manifests mu mn where
    "plan_loop env req encKey manifests 0 manifests init_planState = (st, None)"
    and "run_pool ext env (RestoreTs req) sched (max 2 (NumCPU env * 3 div 4)) (requests st)
          = Inr (mu, mn)"
    and "res = \<lparr>res_maxUid = mu, res_maxNs = max mn (maxBannedNs st),
                 shouldDropAll = dropAll st, res_dropAttr = dropAttr st,
                 res_dropNs = dropNs_acc st\<rparr>"
    and "RestoreTs req \<noteq> 0"
  using assms
  by (auto simp: RunMapper_def Let_def split: option.splits sum.splits if_splits prod.splits)

text \<open>
  C4. In the result of a successful run, \<open>maxUid\<close> bounds the uid of the parsed key of
  every record read (filtered or not), and \<open>maxNs\<close> bounds the namespace of every record
  read, \<open>maxBannedNs\<close>, and every namespace that was banned.
\<close>

theorem C4_maxima:
  assumes "RunMapper ext env sched req = (st, Inr res)"
  shows "(\<forall>kv \<in> set (input_records env (requests st)).
            record_within ext kv (res_maxUid res) (res_maxNs res))
    \<and> maxBannedNs st \<le> res_maxNs res
    \<and> (\<forall>ns \<in> set (banned st). ns \<le> res_maxNs res)"
proof -
  from assms obtain encKey manifests mu mn where
    plan: "plan_loop env req encKey manifests 0 manifests init_planState = (st, None)"
    and pool: "run_pool ext env (RestoreTs req) sched (max 2 (NumCPU env * 3 div 4)) (requests st)
          = Inr (mu, mn)"
    and res: "res = \<lparr>res_maxUid = mu, res_maxNs = max mn (maxBannedNs st),
                 shouldDropAll = dropAll st, res_dropAttr = dropAttr st,
                 res_dropNs = dropNs_acc st\<rparr>"
    by (rule RunMapper_Inr)
  have "\<forall>kv \<in> set (input_records env (requests st)). record_within ext kv mu mn"
    by (rule run_pool_maxima [OF pool]) simp
  then have a: "\<forall>kv \<in> set (input_records env (requests st)).
            record_within ext kv (res_maxUid res) (res_maxNs res)"
    unfolding res by (auto intro: record_within_mono)
  have b: "maxBannedNs st \<le> res_maxNs res"
    unfolding res by simp
  have "\<forall>ns \<in> set (banned st). ns \<le> maxBannedNs st"
    by (rule plan_loop_banned [OF plan]) (simp add: init_planState_def)
  with b have c: "\<forall>ns \<in> set (banned st). ns \<le> res_maxNs res"
    by (auto intro: order_trans)
  from a b c show ?thesis by blast
qed

subsection \<open>Runs on the concrete collaborators\<close>

lemma env0_simps:
  "url_Parse (env0 ms) l = None"
  "NewUriHandler (env0 ms) l = None"
  "getManifestsToRestore (env0 ms) req = Inr ms"
  "getEncConfig (env0 ms) req = None"
  "GetKeys (env0 ms) req = Inr []"
  "NumCPU (env0 ms) = 4"
  "backupFile (env0 ms) path ts gid = path @ ''/r.backup''"
  "Stream (env0 ms) file = (file, None)"
  "snappy_NewReader (env0 ms) rd = ''snappy:'' @ rd"
  "gzip_NewReader (env0 ms) rd = (''gzip:'' @ rd, None)"
  "Close_rd (env0 ms) rd = None"
  "getPredsInGroup (env0 ms) m gid = (case map_of (Groups m) gid of None \<Rightarrow> {} | Some ps \<Rightarrow> set ps)"
  "ParseUint (env0 ms) s = (if s = ''42'' then Inr 42 else Inl (External ''strconv.ParseUint''))"
  "BanNamespace (env0 ms) ns = None"
  "read_batches (env0 ms) rd = ([[[1]]], None)"
  "KVList_Unmarshal (env0 ms) b = Inr [kv_of [1, 0, 7] [5] 50, kv_of [2, 0, 9] [6] 60]"
  by (simp_all add: env0_def)

lemma req0_simps:
  "Location (req0 ts) = ''/backups''" "RestoreTs (req0 ts) = ts" "GroupId (req0 ts) = 1"
  "IncrementalFrom (req0 ts) = 0"
  by (simp_all add: req0_def)

lemmas plan_defs = manifest_of_def init_planState_def map_group_def readerFrom_def
  WithEncryption_def WithCompression_def setErr_def Map_def Close_def inp_of_def
  plan_after_def Let_def

lemma upt3: "[0..<3] = [0, 1, 2]"
  by (simp add: upt_rec)

lemma worker_ext0:
  "processKV ext0 \<lparr>restoreTs = 100, maxUid = 0, maxNs = 0\<rparr> (inp_of b) (kv_of [1, 0, 7] [5] 50) =
     Inr (\<lparr>restoreTs = 100, maxUid = 7, maxNs = 1\<rparr>, [[0, 10, 0, 7] @ PutUint64 50 @ [100, 0, 5]])"
  "processKV ext0 \<lparr>restoreTs = 100, maxUid = 7, maxNs = 1\<rparr> (inp_of b) (kv_of [2, 0, 9] [6] 60) =
     Inr (\<lparr>restoreTs = 100, maxUid = 9, maxNs = 2\<rparr>, [[0, 10, 0, 9] @ PutUint64 60 @ [100, 0, 6]])"
  "processKV ext0 \<lparr>restoreTs = 100, maxUid = 9, maxNs = 2\<rparr> (inp_of b) (kv_of [1, 0, 7] [5] 50) =
     Inr (\<lparr>restoreTs = 100, maxUid = 9, maxNs = 2\<rparr>, [[0, 10, 0, 7] @ PutUint64 50 @ [100, 0, 5]])"
  "processKV ext0 \<lparr>restoreTs = 100, maxUid = 9, maxNs = 2\<rparr> (inp_of b) (kv_of [2, 0, 9] [6] 60) =
     Inr (\<lparr>restoreTs = 100, maxUid = 9, maxNs = 2\<rparr>, [[0, 10, 0, 9] @ PutUint64 60 @ [100, 0, 6]])"
  by (simp_all add: kv_defs inp_of_def)

lemma pool_ext0:
  "run_pool ext0 (env0 ms) 100 (\<lambda>j. j) 3 [([[1]], inp_of b)] = Inr (9, 2)"
  "run_pool ext0 (env0 ms) 100 (\<lambda>j. j) 3 [([[1]], inp_of b), ([[1]], inp_of c)] = Inr (9, 2)"
  by (simp_all add: run_pool_def upt3 worker_reqs_def processReqCh_def env0_simps worker_ext0)

lemma plan_ban:
  "plan_loop (env0 ms) (req0 100) [] chain_ban 0 chain_ban init_planState =
     (plan_after [(0, inp_of True)] [42] 42, None)"
  by (simp add: chain_ban_def plan_defs env0_simps req0_simps)

lemma plan_invalid_newest:
  "plan_loop (env0 ms) (req0 100) [] chain_invalid_newest 0 chain_invalid_newest init_planState =
     (plan_after [(1, inp_of False)] [] 0, None)"
  by (simp add: chain_invalid_newest_def plan_defs env0_simps req0_simps)

lemma plan_two:
  "plan_loop (env0 ms) (req0 100) [] chain_two 0 chain_two init_planState =
     (plan_after [(0, inp_of True), (1, inp_of False)] [] 0, None)"
  by (simp add: chain_two_def plan_defs env0_simps req0_simps)

lemma run_ban:
  "RunMapper ext0 (env0 chain_ban) (\<lambda>j. j) (req0 100) =
     (plan_after [(0, inp_of True)] [42] 42,
      Inr \<lparr>res_maxUid = 9, res_maxNs = 42, shouldDropAll = False, res_dropAttr = {},
           res_dropNs = {}\<rparr>)"
  by (simp add: RunMapper_def env0_simps req0_simps plan_ban)
    (simp add: plan_after_def pool_ext0)

lemma run_invalid_newest:
  "RunMapper ext0 (env0 chain_invalid_newest) (\<lambda>j. j) (req0 100) =
     (plan_after [(1, inp_of False)] [] 0,
      Inr \<lparr>res_maxUid = 9, res_maxNs = 2, shouldDropAll = False, res_dropAttr = {},
           res_dropNs = {}\<rparr>)"
  by (simp add: RunMapper_def env0_simps req0_simps plan_invalid_newest)
    (simp add: plan_after_def pool_ext0)

lemma run_two:
  "RunMapper ext0 (env0 chain_two) (\<lambda>j. j) (req0 100) =
     (plan_after [(0, inp_of True), (1, inp_of False)] [] 0,
      Inr \<lparr>res_maxUid = 9, res_maxNs = 2, shouldDropAll = False, res_dropAttr = {},
           res_dropNs = {}\<rparr>)"
  by (simp add: RunMapper_def env0_simps req0_simps plan_two)
    (simp add: plan_after_def pool_ext0)

theorem C4_maxima_witness:
  "RunMapper ext0 (env0 chain_ban) (\<lambda>j. j) (req0 100) =
     (plan_after [(0, inp_of True)] [42] 42,
      Inr \<lparr>res_maxUid = 9, res_maxNs = 42, shouldDropAll = False, res_dropAttr = {},
           res_dropNs = {}\<rparr>)
   \<and> input_records (env0 chain_ban) (requests (plan_after [(0, inp_of True)] [42] 42)) =
       [kv_of [1, 0, 7] [5] 50, kv_of [2, 0, 9] [6] 60]
   \<and> record_within ext0 (kv_of [1, 0, 7] [5] 50) 9 42
   \<and> record_within ext0 (kv_of [2, 0, 9] [6] 60) 9 42
   \<and> maxBannedNs (plan_after [(0, inp_of True)] [42] 42) = 42
   \<and> banned (plan_after [(0, inp_of True)] [42] 42) = [42]"
proof -
  let ?st = "plan_after [(0, inp_of True)] [42] 42"
  have recs: "input_records (env0 chain_ban) (requests ?st) =
       [kv_of [1, 0, 7] [5] 50, kv_of [2, 0, 9] [6] 60]"
    by (simp add: input_records_def batch_records_def plan_after_def env0_simps)
  have st: "maxBannedNs ?st = 42" "banned ?st = [42]"
    by (simp_all add: plan_after_def)
  from C4_maxima [OF run_ban] have
    "\<forall>kv \<in> set (input_records (env0 chain_ban) (requests ?st)). record_within ext0 kv 9 42"
    by simp
  then have "record_within ext0 (kv_of [1, 0, 7] [5] 50) 9 42"
    "record_within ext0 (kv_of [2, 0, 9] [6] 60) 9 42"
    unfolding recs by simp_all
  with run_ban recs st show ?thesis by blast
qed

theorem C8_configuration_errors_witness:
  "fst (RunMapper ext0 (env0 chain_two) (\<lambda>j. j) (req0 0)) = init_planState
   \<and> isl (snd (RunMapper ext0 (env0 chain_two) (\<lambda>j. j) (req0 0)))
   \<and> br_err (WithCompression (env0 []) (readerFrom (env0 []) ''f'') ''lz4'') =
       Some (UnknownCompression ''lz4'')
   \<and> (\<exists>e. plan_loop (env0 []) (req0 100) [] [manifest_of 1 10 ''lz4'' []] 0
            (manifest_of 1 10 ''lz4'' [] # []) init_planState =
          (init_planState, Some (Wrapped ''newBackupReader'' e)))"
proof -
  note a = C8_configuration_errors [where req = "req0 0" and ext = ext0
      and env = "env0 chain_two" and sched = "\<lambda>j. j"]
  note b = C8_configuration_errors [where req = "req0 100" and env = "env0 []"
      and compression = "''lz4''" and br = "readerFrom (env0 []) ''f''"
      and manifest = "manifest_of 1 10 ''lz4'' []" and encKey = "[]"
      and manifests = "[manifest_of 1 10 ''lz4'' []]" and i = 0 and st = init_planState
      and rest = "[]"]
  from a have 1: "fst (RunMapper ext0 (env0 chain_two) (\<lambda>j. j) (req0 0)) = init_planState"
    "isl (snd (RunMapper ext0 (env0 chain_two) (\<lambda>j. j) (req0 0)))"
    by (simp_all add: req0_simps)
  have c: "''lz4'' \<notin> {''snappy'', ''gzip'', ''''}" by simp
  with b have "br_err (WithCompression (env0 []) (readerFrom (env0 []) ''f'') ''lz4'') =
      Some (case br_err (readerFrom (env0 []) ''f'') of
              None \<Rightarrow> UnknownCompression ''lz4'' | Some e \<Rightarrow> e)"
    by blast
  then have 2: "br_err (WithCompression (env0 []) (readerFrom (env0 []) ''f'') ''lz4'') =
       Some (UnknownCompression ''lz4'')"
    by (simp add: readerFrom_def setErr_def env0_simps)
  have "Compression (manifest_of 1 10 ''lz4'' []) \<notin> {''snappy'', ''gzip'', ''''}
        \<and> \<not> BackupNum (manifest_of 1 10 ''lz4'' []) < IncrementalFrom (req0 100)
        \<and> \<not> dropAll init_planState
        \<and> ValidReadTs (manifest_of 1 10 ''lz4'' []) \<noteq> 0
        \<and> map_of (Groups (manifest_of 1 10 ''lz4'' [])) (GroupId (req0 100)) \<noteq> None"
    by (simp add: manifest_of_def req0_simps init_planState_def)
  with b have 3: "\<exists>e. plan_loop (env0 []) (req0 100) [] [manifest_of 1 10 ''lz4'' []] 0
            (manifest_of 1 10 ''lz4'' [] # []) init_planState =
          (init_planState, Some (Wrapped ''newBackupReader'' e))"
    by blast
  from 1 2 3 show ?thesis by blast
qed

lemma plan_bad_older:
  "plan_loop (env0 ms) (req0 100) [] chain_bad_older 0 chain_bad_older init_planState =
     (plan_after [(0, inp_of True)] [] 0,
      Some (Wrapped ''newBackupReader'' (UnknownCompression ''lz4'')))"
  by (simp add: chain_bad_older_def plan_defs env0_simps req0_simps)

text \<open>
  C8 as stated fails for the compression: when the unknown compression is that of an
  older manifest, the error is returned after the archive of the newer manifest has
  been read by \<open>Map\<close> and its records sent to the workers.
\<close>

theorem C8_before_any_archive_counterexample:
  "RunMapper ext0 (env0 chain_bad_older) (\<lambda>j. j) (req0 100) =
     (plan_after [(0, inp_of True)] [] 0,
      Inl (Wrapped ''newBackupReader'' (UnknownCompression ''lz4'')))
   \<and> mapped (plan_after [(0, inp_of True)] [] 0) = [(0, inp_of True)]
   \<and> input_records (env0 chain_bad_older) (requests (plan_after [(0, inp_of True)] [] 0)) =
       [kv_of [1, 0, 7] [5] 50, kv_of [2, 0, 9] [6] 60]"
  by (simp add: RunMapper_def env0_simps req0_simps plan_bad_older)
    (simp add: plan_after_def input_records_def batch_records_def env0_simps)

theorem C9_keepSchema_newest_only_witness:
  "RunMapper ext0 (env0 chain_two) (\<lambda>j. j) (req0 100) =
     (plan_after [(0, inp_of True), (1, inp_of False)] [] 0,
      Inr \<lparr>res_maxUid = 9, res_maxNs = 2, shouldDropAll = False, res_dropAttr = {},
           res_dropNs = {}\<rparr>)
   \<and> map (\<lambda>m. keepSchema (snd m)) (mapped (plan_after [(0, inp_of True), (1, inp_of False)] [] 0))
       = [True, False]
   \<and> length (filter (\<lambda>m. keepSchema (snd m))
        (mapped (plan_after [(0, inp_of True), (1, inp_of False)] [] 0))) = 1"
proof -
  let ?st = "plan_after [(0, inp_of True), (1, inp_of False)] [] 0"
  have m: "mapped ?st = [(0, inp_of True), (1, inp_of False)]"
    by (simp add: plan_after_def)
  from C9_keepSchema_newest_only [OF run_two]
  have all: "\<forall>m \<in> set (mapped ?st). keepSchema (snd m) \<longleftrightarrow> fst m = 0"
    and one: "length (filter (\<lambda>m. keepSchema (snd m)) (mapped ?st)) = 1
          \<longleftrightarrow> 0 \<in> fst ` set (mapped ?st)"
    by blast+
  from all have "map (\<lambda>m. keepSchema (snd m)) (mapped ?st) = [True, False]"
    unfolding m by simp
  moreover from one have "length (filter (\<lambda>m. keepSchema (snd m)) (mapped ?st)) = 1"
    unfolding m by simp
  ultimately show ?thesis using run_two by blast
qed

text \<open>
  C9 as stated fails: when the newest manifest has no valid read timestamp the walk
  skips it, the archive of the older manifest is handed to \<open>Map\<close> with \<open>keepSchema\<close>
  false, and the run succeeds with no archive for which \<open>keepSchema\<close> is true.
\<close>

theorem C9_exactly_one_counterexample:
  "RunMapper ext0 (env0 chain_invalid_newest) (\<lambda>j. j) (req0 100) =
     (plan_after [(1, inp_of False)] [] 0,
      Inr \<lparr>res_maxUid = 9, res_maxNs = 2, shouldDropAll = False, res_dropAttr = {},
           res_dropNs = {}\<rparr>)
   \<and> mapped (plan_after [(1, inp_of False)] [] 0) = [(1, inp_of False)]
   \<and> keepSchema (inp_of False) = False
   \<and> length (filter (\<lambda>m. keepSchema (snd m)) (mapped (plan_after [(1, inp_of False)] [] 0))) = 0"
  by (simp add: run_invalid_newest) (simp add: plan_after_def inp_of_def)

end
